theory Spec2Isabelle
  imports Main "HOL-Library.Monad_Syntax" "HOL-Library.Word"
begin

unbundle bit_operations_syntax

section \<open>Memory model\<close>

text \<open>
  The suffix-array construction of \<^verbatim>\<open>src/bzip2/sais.c\<close> works on three kinds of storage:
  the caller's buffer \<^verbatim>\<open>SA\<close> of \<open>n + fs\<close> integers, blocks obtained from \<^verbatim>\<open>malloc\<close>, and the
  read-only text \<^verbatim>\<open>T\<close>.  The bucket arrays \<^verbatim>\<open>C\<close>, \<^verbatim>\<open>B\<close> and \<^verbatim>\<open>D\<close> are pointers either into the
  tail of \<^verbatim>\<open>SA\<close> or to a heap block, and the code compares them (\<^verbatim>\<open>C == B\<close>), so pointers are
  values of their own.

  A C \<^verbatim>\<open>int\<close> is modelled as an unbounded \<open>int\<close>: every value the routine computes is an index
  into, or a count over, a buffer of \<open>n + fs\<close> elements (plus the \<open>+n\<close> flag, which the code
  only uses when \<open>n \<le> 0x3fffffff\<close>), so for \<open>n + fs < 2^31\<close> the 32-bit arithmetic of the source
  does not wrap.  \<^verbatim>\<open>~j\<close> is \<open>NOT j\<close>, that is \<open>- j - 1\<close>.

  A step that has no defined result in C (an access outside its buffer, freeing a pointer that
  is not a live block) and a failed \<^verbatim>\<open>assert\<close> are both the value \<open>None\<close>.
\<close>

datatype ptr = SAp int | Hp nat

record mem =
  sa :: "int list"
  heap :: "nat \<rightharpoonup> int list"
  nalloc :: nat
  outcome :: "nat \<Rightarrow> (nat \<Rightarrow> int) option"

text \<open>
  \<open>sa\<close> is the buffer \<^verbatim>\<open>SA[0 .. n+fs)\<close>; \<open>SAp off\<close> is the pointer \<^verbatim>\<open>SA + off\<close>.  \<open>heap\<close> holds
  the live \<^verbatim>\<open>malloc\<close> blocks, \<open>Hp b\<close> points to the start of block \<open>b\<close>.  \<open>nalloc\<close> counts the
  calls of \<^verbatim>\<open>malloc\<close> made so far, and \<open>outcome i\<close> is the outcome of call number \<open>i\<close>: \<open>None\<close>
  when it returns \<^verbatim>\<open>NULL\<close>, otherwise the (arbitrary) initial contents of the new block,
  element by element.
\<close>

type_synonym chars = "int list"

definition rd :: "int list \<Rightarrow> int \<Rightarrow> int option" where
  "rd xs i = (if 0 \<le> i \<and> i < int (length xs) then Some (xs ! nat i) else None)"

definition wr :: "int list \<Rightarrow> int \<Rightarrow> int \<Rightarrow> int list option" where
  "wr xs i v = (if 0 \<le> i \<and> i < int (length xs) then Some (xs[nat i := v]) else None)"

definition load :: "mem \<Rightarrow> ptr \<Rightarrow> int \<Rightarrow> int option" where
  "load s p i = (case p of
       SAp off \<Rightarrow> rd (sa s) (off + i)
     | Hp b \<Rightarrow> (case heap s b of None \<Rightarrow> None | Some xs \<Rightarrow> rd xs i))"

definition store :: "mem \<Rightarrow> ptr \<Rightarrow> int \<Rightarrow> int \<Rightarrow> mem option" where
  "store s p i v = (case p of
       SAp off \<Rightarrow> map_option (\<lambda>xs. s\<lparr>sa := xs\<rparr>) (wr (sa s) (off + i) v)
     | Hp b \<Rightarrow> (case heap s b of None \<Rightarrow> None
         | Some xs \<Rightarrow> map_option (\<lambda>ys. s\<lparr>heap := (heap s)(b \<mapsto> ys)\<rparr>) (wr xs i v)))"

text \<open>\<^verbatim>\<open>SAIS_MYMALLOC(num, int)\<close>: the pointer is \<open>None\<close> for \<^verbatim>\<open>NULL\<close>.\<close>

definition malloc :: "int \<Rightarrow> mem \<Rightarrow> ptr option \<times> mem" where
  "malloc num s = (case outcome s (nalloc s) of
       None \<Rightarrow> (None, s\<lparr>nalloc := Suc (nalloc s)\<rparr>)
     | Some junk \<Rightarrow> (Some (Hp (nalloc s)),
         s\<lparr>heap := (heap s)(nalloc s \<mapsto> map junk [0..<nat num]),
           nalloc := Suc (nalloc s)\<rparr>))"

text \<open>\<^verbatim>\<open>SAIS_MYFREE(ptr, num, type)\<close>, that is \<^verbatim>\<open>free(ptr)\<close>.\<close>

definition free :: "ptr \<Rightarrow> mem \<Rightarrow> mem option" where
  "free p s = (case p of
       SAp off \<Rightarrow> None
     | Hp b \<Rightarrow> (case heap s b of None \<Rightarrow> None | Some xs \<Rightarrow> Some (s\<lparr>heap := (heap s)(b := None)\<rparr>)))"

text \<open>Pointer arithmetic \<^verbatim>\<open>p + d\<close>; the code only moves pointers into \<^verbatim>\<open>SA\<close>.\<close>

definition padd :: "ptr \<Rightarrow> int \<Rightarrow> ptr option" where
  "padd p d = (case p of SAp off \<Rightarrow> Some (SAp (off + d)) | Hp b \<Rightarrow> (if d = 0 then Some (Hp b) else None))"

definition assert :: "bool \<Rightarrow> unit option" where
  "assert b = (if b then Some () else None)"

text \<open>
  \<^verbatim>\<open>chr(a)\<close> reads element \<open>a\<close> of the text, as \<^verbatim>\<open>unsigned char\<close> or as \<^verbatim>\<open>int\<close> according to
  \<^verbatim>\<open>cs\<close>.  The text is modelled as the list of its element values, whichever their width, so
  the parameter \<^verbatim>\<open>cs\<close> does not appear.
\<close>

definition chr :: "chars \<Rightarrow> int \<Rightarrow> int option" where
  "chr T a = rd T a"

text \<open>A \<^verbatim>\<open>for\<close> loop whose body does not change the loop index runs the body over the indices.\<close>

primrec iter :: "int list \<Rightarrow> (int \<Rightarrow> 's \<Rightarrow> 's option) \<Rightarrow> 's \<Rightarrow> 's option" where
  "iter [] f s = Some s"
| "iter (i # is) f s = do { s' \<leftarrow> f i s; iter is f s' }"

text \<open>\<^verbatim>\<open>for (i = 0; i < n; ++i)\<close> and \<^verbatim>\<open>for (i = n - 1; 0 <= i; --i)\<close>.\<close>

definition up :: "int \<Rightarrow> int list" where
  "up n = [0..n - 1]"

definition down :: "int \<Rightarrow> int list" where
  "down n = rev [0..n - 1]"

section \<open>Counting and bucketing\<close>

definition getCounts :: "chars \<Rightarrow> ptr \<Rightarrow> int \<Rightarrow> int \<Rightarrow> mem \<Rightarrow> mem option" where
  "getCounts T C n k s = do {
     s1 \<leftarrow> iter (up k) (\<lambda>i s. store s C i 0) s;
     iter (up n) (\<lambda>i s. do { c \<leftarrow> chr T i; v \<leftarrow> load s C c; store s C c (v + 1) }) s1
   }"

definition getBuckets :: "ptr \<Rightarrow> ptr \<Rightarrow> int \<Rightarrow> bool \<Rightarrow> mem \<Rightarrow> mem option" where
  "getBuckets C B k end s =
     map_option fst
       (if end then
          iter (up k) (\<lambda>i (s, sum). do {
             c \<leftarrow> load s C i;
             s' \<leftarrow> store s B i (sum + c);
             Some (s', sum + c) }) (s, 0)
        else
          iter (up k) (\<lambda>i (s, sum). do {
             c \<leftarrow> load s C i;
             c' \<leftarrow> load s C i;
             s' \<leftarrow> store s B i (sum + c - c');
             Some (s', sum + c) }) (s, 0))"

section \<open>The L/S run scans\<close>

text \<open>
  \<^verbatim>\<open>do { c1 = c0; } while ((0 <= --i) && ((c0 = chr(i)) >= c1));\<close>
  entered with the values of \<open>i\<close> and \<open>c0\<close>; the result is \<open>(i, c0, c1)\<close> at the exit.
\<close>

function skip_ge :: "chars \<Rightarrow> int \<Rightarrow> int \<Rightarrow> (int \<times> int \<times> int) option" where
  "skip_ge T i c0 =
     (if 0 \<le> i - 1 then do {
        c \<leftarrow> chr T (i - 1);
        if c \<ge> c0 then skip_ge T (i - 1) c else Some (i - 1, c, c0) }
      else Some (i - 1, c0, c0))"
  by pat_completeness auto
termination
  by (relation "measure (\<lambda>(T, i, c0). nat i)") auto

text \<open>\<^verbatim>\<open>do { c1 = c0; } while ((0 <= --i) && ((c0 = chr(i)) <= c1));\<close>\<close>

function skip_le :: "chars \<Rightarrow> int \<Rightarrow> int \<Rightarrow> (int \<times> int \<times> int) option" where
  "skip_le T i c0 =
     (if 0 \<le> i - 1 then do {
        c \<leftarrow> chr T (i - 1);
        if c \<le> c0 then skip_le T (i - 1) c else Some (i - 1, c, c0) }
      else Some (i - 1, c0, c0))"
  by pat_completeness auto
termination
  by (relation "measure (\<lambda>(T, i, c0). nat i)") auto

section \<open>Sorting the LMS substrings in one pass\<close>

text \<open>
  In the loops below \<open>b\<close> is the index \<^verbatim>\<open>b - SA\<close> of the write cursor, and the loop state is
  the memory together with the locals that live across iterations.
\<close>

text \<open>The bucket switch \<^verbatim>\<open>if ((c0 = chr(j)) != c1) { B[c1] = b - SA; b = SA + B[c1 = c0]; }\<close>.\<close>

definition switch_bucket :: "ptr \<Rightarrow> int \<Rightarrow> mem \<times> int \<times> int \<Rightarrow> (mem \<times> int \<times> int) option" where
  "switch_bucket B c0 = (\<lambda>(s, b, c1).
     if c0 \<noteq> c1 then do {
       s \<leftarrow> store s B c1 b;
       b \<leftarrow> load s B c0;
       Some (s, b, c0) }
     else Some (s, b, c1))"

definition sortLMS1_L :: "chars \<Rightarrow> ptr \<Rightarrow> int \<Rightarrow> mem \<times> int \<times> int \<Rightarrow> (mem \<times> int \<times> int) option" where
  "sortLMS1_L T B i = (\<lambda>(s, b, c1). do {
     j \<leftarrow> load s (SAp 0) i;
     if 0 < j then do {
       a \<leftarrow> chr T j; a' \<leftarrow> chr T (j + 1);
       assert (a \<ge> a');
       c0 \<leftarrow> chr T j;
       (s, b, c1) \<leftarrow> switch_bucket B c0 (s, b, c1);
       assert (i < b);
       let j = j - 1;
       c \<leftarrow> chr T j;
       s \<leftarrow> store s (SAp 0) b (if c < c1 then NOT j else j);
       let b = b + 1;
       s \<leftarrow> store s (SAp 0) i 0;
       Some (s, b, c1) }
     else if j < 0 then do {
       s \<leftarrow> store s (SAp 0) i (NOT j);
       Some (s, b, c1) }
     else Some (s, b, c1) })"

definition sortLMS1_S :: "chars \<Rightarrow> ptr \<Rightarrow> int \<Rightarrow> mem \<times> int \<times> int \<Rightarrow> (mem \<times> int \<times> int) option" where
  "sortLMS1_S T B i = (\<lambda>(s, b, c1). do {
     j \<leftarrow> load s (SAp 0) i;
     if 0 < j then do {
       a \<leftarrow> chr T j; a' \<leftarrow> chr T (j + 1);
       assert (a \<le> a');
       c0 \<leftarrow> chr T j;
       (s, b, c1) \<leftarrow> switch_bucket B c0 (s, b, c1);
       assert (b \<le> i);
       let j = j - 1;
       c \<leftarrow> chr T j;
       let b = b - 1;
       s \<leftarrow> store s (SAp 0) b (if c > c1 then NOT (j + 1) else j);
       s \<leftarrow> store s (SAp 0) i 0;
       Some (s, b, c1) }
     else Some (s, b, c1) })"

definition sortLMS1 :: "chars \<Rightarrow> ptr \<Rightarrow> ptr \<Rightarrow> int \<Rightarrow> int \<Rightarrow> mem \<Rightarrow> mem option" where
  "sortLMS1 T C B n k s = do {
     s \<leftarrow> (if C = B then getCounts T C n k s else Some s);
     s \<leftarrow> getBuckets C B k False s;
     let j = n - 1;
     c1 \<leftarrow> chr T j;
     b \<leftarrow> load s B c1;
     let j = j - 1;
     c \<leftarrow> chr T j;
     s \<leftarrow> store s (SAp 0) b (if c < c1 then NOT j else j);
     let b = b + 1;
     (s, b, c1) \<leftarrow> iter (up n) (sortLMS1_L T B) (s, b, c1);
     s \<leftarrow> (if C = B then getCounts T C n k s else Some s);
     s \<leftarrow> getBuckets C B k True s;
     b \<leftarrow> load s B 0;
     (s, b, c1) \<leftarrow> iter (down n) (sortLMS1_S T B) (s, b, 0);
     Some s }"

section \<open>Naming after the one-pass sort\<close>

lemma load_SA_Some_range: "load s (SAp 0) i = Some v \<Longrightarrow> 0 \<le> i \<and> i < int (length (sa s))"
  by (simp add: load_def rd_def split: if_splits)

text \<open>\<^verbatim>\<open>for (i = 0; (p = SA[i]) < 0; ++i) { SA[i] = ~p; assert((i + 1) < n); }\<close>, giving the final \<open>i\<close>.\<close>

function compact_head :: "int \<Rightarrow> int \<Rightarrow> mem \<Rightarrow> (mem \<times> int) option" where
  "compact_head n i s = do {
     p \<leftarrow> load s (SAp 0) i;
     if p < 0 then do {
       s \<leftarrow> store s (SAp 0) i (NOT p);
       _ \<leftarrow> assert (i + 1 < n);
       compact_head n (i + 1) s }
     else Some (s, i) }"
  by pat_completeness auto
termination
  by (relation "measure (\<lambda>(n, i, s). nat (n - i))") (auto simp: assert_def split: if_splits)

text \<open>
  \<^verbatim>\<open>for (j = i, ++i;; ++i) { assert(i < n); if ((p = SA[i]) < 0) { SA[j++] = ~p; SA[i] = 0;
  if (j == m) break; } }\<close>, entered after \<^verbatim>\<open>++i\<close>.
\<close>

function compact_rest :: "int \<Rightarrow> int \<Rightarrow> int \<Rightarrow> int \<Rightarrow> mem \<Rightarrow> mem option" where
  "compact_rest n m i j s = do {
     _ \<leftarrow> assert (i < n);
     p \<leftarrow> load s (SAp 0) i;
     if p < 0 then do {
       s \<leftarrow> store s (SAp 0) j (NOT p);
       s \<leftarrow> store s (SAp 0) i 0;
       if j + 1 = m then Some s else compact_rest n m (i + 1) (j + 1) s }
     else compact_rest n m (i + 1) j s }"
  by pat_completeness auto
termination
  by (relation "measure (\<lambda>(n, m, i, j, s). nat (n - i))") (auto simp: assert_def split: if_splits)

declare skip_ge.simps [simp del] skip_le.simps [simp del]
declare compact_head.simps [simp del] compact_rest.simps [simp del]

lemma skip_ge_less: "skip_ge T i c0 = Some (i', c0', c1') \<Longrightarrow> i' < i"
proof (induction T i c0 rule: skip_ge.induct)
  case (1 T i c0)
  from "1.prems" "1.IH" show ?case
    by (subst (asm) skip_ge.simps) (fastforce split: if_splits bind_splits)
qed

lemma skip_le_less: "skip_le T i c0 = Some (i', c0', c1') \<Longrightarrow> i' < i"
proof (induction T i c0 rule: skip_le.induct)
  case (1 T i c0)
  from "1.prems" "1.IH" show ?case
    by (subst (asm) skip_le.simps) (fastforce split: if_splits bind_splits)
qed

text \<open>
  The loop that stores the length of every LMS substring: \<^verbatim>\<open>for (; 0 <= i;) { ... }\<close> of
  \<^verbatim>\<open>postProcLMS1\<close>, with the locals \<open>i\<close>, \<open>j\<close> and \<open>c0\<close>.
\<close>

function store_lengths :: "chars \<Rightarrow> int \<Rightarrow> int \<Rightarrow> int \<Rightarrow> int \<Rightarrow> mem \<Rightarrow> mem option" where
  "store_lengths T m i j c0 s =
     (if 0 \<le> i then do {
        (i, c0, c1) \<leftarrow> skip_le T i c0;
        if 0 \<le> i then do {
          s \<leftarrow> store s (SAp 0) (m + drop_bit 1 (i + 1)) (j - i);
          let j = i + 1;
          (i, c0, c1) \<leftarrow> skip_ge T i c0;
          store_lengths T m i j c0 s }
        else store_lengths T m i j c0 s }
      else Some s)"
  by pat_completeness auto
termination
  by (relation "measure (\<lambda>(T, m, i, j, c0, s). nat (i + 1))")
     (auto dest!: skip_le_less skip_ge_less)

declare store_lengths.simps [simp del]

text \<open>\<^verbatim>\<open>for (j = 0; (j < plen) && (chr(p + j) == chr(q + j)); ++j) { }\<close>, giving the final \<open>j\<close>.\<close>

function match_len :: "chars \<Rightarrow> int \<Rightarrow> int \<Rightarrow> int \<Rightarrow> int \<Rightarrow> int option" where
  "match_len T p q plen j =
     (if j < plen then do {
        a \<leftarrow> chr T (p + j); a' \<leftarrow> chr T (q + j);
        if a = a' then match_len T p q plen (j + 1) else Some j }
      else Some j)"
  by pat_completeness auto
termination
  by (relation "measure (\<lambda>(T, p, q, plen, j). nat (plen - j))") auto

declare match_len.simps [simp del]

text \<open>The body of the naming loop; the loop state is the memory with \<open>name\<close>, \<open>q\<close> and \<open>qlen\<close>.\<close>

definition name_step :: "chars \<Rightarrow> int \<Rightarrow> int \<Rightarrow> int \<Rightarrow> mem \<times> int \<times> int \<times> int \<Rightarrow> (mem \<times> int \<times> int \<times> int) option" where
  "name_step T n m i = (\<lambda>(s, name, q, qlen). do {
     p \<leftarrow> load s (SAp 0) i;
     plen \<leftarrow> load s (SAp 0) (m + drop_bit 1 p);
     diff \<leftarrow> (if plen = qlen \<and> q + plen < n then do {
                j \<leftarrow> match_len T p q plen 0;
                Some (if j = plen then 0 else (1::int)) }
              else Some 1);
     let (name, q, qlen) = (if diff \<noteq> 0 then (name + 1, p, plen) else (name, q, qlen));
     s \<leftarrow> store s (SAp 0) (m + drop_bit 1 p) name;
     Some (s, name, q, qlen) })"

definition postProcLMS1 :: "chars \<Rightarrow> int \<Rightarrow> int \<Rightarrow> mem \<Rightarrow> (int \<times> mem) option" where
  "postProcLMS1 T n m s = do {
     _ \<leftarrow> assert (0 < n);
     (s, i) \<leftarrow> compact_head n 0 s;
     s \<leftarrow> (if i < m then compact_rest n m (i + 1) i s else Some s);
     let i = n - 1;
     let j = n - 1;
     c0 \<leftarrow> chr T (n - 1);
     (i, c0, c1) \<leftarrow> skip_ge T i c0;
     s \<leftarrow> store_lengths T m i j c0 s;
     (s, name, q, qlen) \<leftarrow> iter (up m) (name_step T n m) (s, 0, n, 0);
     Some (name, s) }"

section \<open>Sorting the LMS substrings in two passes\<close>

text \<open>The loop state carries the generation counter \<open>d\<close> as well.\<close>

definition LMSsort2_L :: "chars \<Rightarrow> ptr \<Rightarrow> ptr \<Rightarrow> int \<Rightarrow> int \<Rightarrow> mem \<times> int \<times> int \<times> int \<Rightarrow> (mem \<times> int \<times> int \<times> int) option" where
  "LMSsort2_L T B D n i = (\<lambda>(s, b, c1, d). do {
     j \<leftarrow> load s (SAp 0) i;
     if 0 < j then do {
       let (d, j) = (if n \<le> j then (d + 1, j - n) else (d, j));
       a \<leftarrow> chr T j; a' \<leftarrow> chr T (j + 1);
       assert (a \<ge> a');
       c0 \<leftarrow> chr T j;
       (s, b, c1) \<leftarrow> switch_bucket B c0 (s, b, c1);
       assert (i < b);
       let j = j - 1;
       let t = c0;
       c \<leftarrow> chr T j;
       let t = push_bit 1 t OR (if c < c1 then 1 else 0);
       dt \<leftarrow> load s D t;
       (s, j) \<leftarrow> (if dt \<noteq> d then do { s \<leftarrow> store s D t d; Some (s, j + n) } else Some (s, j));
       s \<leftarrow> store s (SAp 0) b (if t AND 1 \<noteq> 0 then NOT j else j);
       let b = b + 1;
       s \<leftarrow> store s (SAp 0) i 0;
       Some (s, b, c1, d) }
     else if j < 0 then do {
       s \<leftarrow> store s (SAp 0) i (NOT j);
       Some (s, b, c1, d) }
     else Some (s, b, c1, d) })"

definition LMSsort2_S :: "chars \<Rightarrow> ptr \<Rightarrow> ptr \<Rightarrow> int \<Rightarrow> int \<Rightarrow> mem \<times> int \<times> int \<times> int \<Rightarrow> (mem \<times> int \<times> int \<times> int) option" where
  "LMSsort2_S T B D n i = (\<lambda>(s, b, c1, d). do {
     j \<leftarrow> load s (SAp 0) i;
     if 0 < j then do {
       let (d, j) = (if n \<le> j then (d + 1, j - n) else (d, j));
       a \<leftarrow> chr T j; a' \<leftarrow> chr T (j + 1);
       assert (a \<le> a');
       c0 \<leftarrow> chr T j;
       (s, b, c1) \<leftarrow> switch_bucket B c0 (s, b, c1);
       assert (b \<le> i);
       let j = j - 1;
       let t = c0;
       c \<leftarrow> chr T j;
       let t = push_bit 1 t OR (if c > c1 then 1 else 0);
       dt \<leftarrow> load s D t;
       (s, j) \<leftarrow> (if dt \<noteq> d then do { s \<leftarrow> store s D t d; Some (s, j + n) } else Some (s, j));
       let b = b - 1;
       s \<leftarrow> store s (SAp 0) b (if t AND 1 \<noteq> 0 then NOT (j + 1) else j);
       s \<leftarrow> store s (SAp 0) i 0;
       Some (s, b, c1, d) }
     else Some (s, b, c1, d) })"

text \<open>\<^verbatim>\<open>for (j = i - 1; SA[j] < n; --j) { }\<close>, giving the final \<open>j\<close>.\<close>

function find_flagged :: "int \<Rightarrow> int \<Rightarrow> mem \<Rightarrow> int option" where
  "find_flagged n j s = do {
     v \<leftarrow> load s (SAp 0) j;
     if v < n then find_flagged n (j - 1) s else Some j }"
  by pat_completeness auto
termination
  by (relation "measure (\<lambda>(n, j, s). nat (j + 1))") (auto dest!: load_SA_Some_range)

declare find_flagged.simps [simp del]

lemma find_flagged_le: "find_flagged n j s = Some j' \<Longrightarrow> j' \<le> j"
proof (induction n j s rule: find_flagged.induct)
  case (1 n j s)
  from "1.prems" "1.IH" show ?case
    by (subst (asm) find_flagged.simps) (fastforce split: if_splits bind_splits)
qed

text \<open>
  The loop between the two passes, which moves every flag from the last entry of its class to
  the first: \<^verbatim>\<open>for (i = n - 1; 0 <= i; --i) { if (0 < SA[i]) { if (SA[i] < n) { ... i = j; } } }\<close>.
\<close>

function move_flags :: "int \<Rightarrow> int \<Rightarrow> mem \<Rightarrow> mem option" where
  "move_flags n i s =
     (if 0 \<le> i then do {
        v \<leftarrow> load s (SAp 0) i;
        if 0 < v then do {
          v \<leftarrow> load s (SAp 0) i;
          if v < n then do {
            s \<leftarrow> store s (SAp 0) i (v + n);
            j \<leftarrow> find_flagged n (i - 1) s;
            w \<leftarrow> load s (SAp 0) j;
            s \<leftarrow> store s (SAp 0) j (w - n);
            move_flags n (j - 1) s }
          else move_flags n (i - 1) s }
        else move_flags n (i - 1) s }
      else Some s)"
  by pat_completeness auto
termination
  by (relation "measure (\<lambda>(n, i, s). nat (i + 1))")
     (auto dest!: load_SA_Some_range find_flagged_le)

declare move_flags.simps [simp del]

definition LMSsort2 :: "chars \<Rightarrow> ptr \<Rightarrow> ptr \<Rightarrow> ptr \<Rightarrow> int \<Rightarrow> int \<Rightarrow> mem \<Rightarrow> mem option" where
  "LMSsort2 T C B D n k s = do {
     _ \<leftarrow> assert (C \<noteq> B);
     s \<leftarrow> getBuckets C B k False s;
     let j = n - 1;
     c1 \<leftarrow> chr T j;
     b \<leftarrow> load s B c1;
     let j = j - 1;
     c \<leftarrow> chr T j;
     let t = (if c < c1 then 1 else (0::int));
     let j = j + n;
     s \<leftarrow> store s (SAp 0) b (if t AND 1 \<noteq> 0 then NOT j else j);
     let b = b + 1;
     (s, b, c1, d) \<leftarrow> iter (up n) (LMSsort2_L T B D n) (s, b, c1, 0);
     s \<leftarrow> move_flags n (n - 1) s;
     s \<leftarrow> getBuckets C B k True s;
     let d = d + 1;
     b \<leftarrow> load s B 0;
     (s, b, c1, d) \<leftarrow> iter (down n) (LMSsort2_S T B D n) (s, b, 0, d);
     Some s }"

section \<open>Naming after the two-pass sort\<close>

text \<open>The two compaction loops of \<^verbatim>\<open>postProcLMS2\<close>; they count the flagged entries in \<open>name\<close>.\<close>

function compact_head2 :: "int \<Rightarrow> int \<Rightarrow> int \<Rightarrow> mem \<Rightarrow> (mem \<times> int \<times> int) option" where
  "compact_head2 n i name s = do {
     j \<leftarrow> load s (SAp 0) i;
     if j < 0 then do {
       let j = NOT j;
       let name = (if n \<le> j then name + 1 else name);
       s \<leftarrow> store s (SAp 0) i j;
       _ \<leftarrow> assert (i + 1 < n);
       compact_head2 n (i + 1) name s }
     else Some (s, i, name) }"
  by pat_completeness auto
termination
  by (relation "measure (\<lambda>(n, i, name, s). nat (n - i))") (auto simp: assert_def split: if_splits)

declare compact_head2.simps [simp del]

function compact_rest2 :: "int \<Rightarrow> int \<Rightarrow> int \<Rightarrow> int \<Rightarrow> int \<Rightarrow> mem \<Rightarrow> (mem \<times> int) option" where
  "compact_rest2 n m i d name s = do {
     _ \<leftarrow> assert (i < n);
     j \<leftarrow> load s (SAp 0) i;
     if j < 0 then do {
       let j = NOT j;
       let name = (if n \<le> j then name + 1 else name);
       s \<leftarrow> store s (SAp 0) d j;
       s \<leftarrow> store s (SAp 0) i 0;
       if d + 1 = m then Some (s, name) else compact_rest2 n m (i + 1) (d + 1) name s }
     else compact_rest2 n m (i + 1) d name s }"
  by pat_completeness auto
termination
  by (relation "measure (\<lambda>(n, m, i, d, name, s). nat (n - i))") (auto simp: assert_def split: if_splits)

declare compact_rest2.simps [simp del]

definition postProcLMS2 :: "int \<Rightarrow> int \<Rightarrow> mem \<Rightarrow> (int \<times> mem) option" where
  "postProcLMS2 n m s = do {
     _ \<leftarrow> assert (0 < n);
     (s, i, name) \<leftarrow> compact_head2 n 0 0 s;
     (s, name) \<leftarrow> (if i < m then compact_rest2 n m (i + 1) i name s else Some (s, name));
     s \<leftarrow> (if name < m then
            map_option fst (iter (down m) (\<lambda>i (s, d). do {
               j \<leftarrow> load s (SAp 0) i;
               let (j, d) = (if n \<le> j then (j - n, d - 1) else (j, d));
               s \<leftarrow> store s (SAp 0) (m + drop_bit 1 j) d;
               Some (s, d) }) (s, name + 1))
          else
            iter (up m) (\<lambda>i s. do {
               j \<leftarrow> load s (SAp 0) i;
               if n \<le> j then store s (SAp 0) i (j - n) else Some s }) s);
     Some (name, s) }"

section \<open>Inducing the suffix array from the sorted LMS suffixes\<close>

definition induceSA_L :: "chars \<Rightarrow> ptr \<Rightarrow> int \<Rightarrow> mem \<times> int \<times> int \<Rightarrow> (mem \<times> int \<times> int) option" where
  "induceSA_L T B i = (\<lambda>(s, b, c1). do {
     j \<leftarrow> load s (SAp 0) i;
     s \<leftarrow> store s (SAp 0) i (NOT j);
     if 0 < j then do {
       let j = j - 1;
       a \<leftarrow> chr T j; a' \<leftarrow> chr T (j + 1);
       assert (a \<ge> a');
       c0 \<leftarrow> chr T j;
       (s, b, c1) \<leftarrow> switch_bucket B c0 (s, b, c1);
       assert (i < b);
       f \<leftarrow> (if 0 < j then do { c \<leftarrow> chr T (j - 1); Some (c < c1) } else Some False);
       s \<leftarrow> store s (SAp 0) b (if f then NOT j else j);
       Some (s, b + 1, c1) }
     else Some (s, b, c1) })"

definition induceSA_S :: "chars \<Rightarrow> ptr \<Rightarrow> int \<Rightarrow> mem \<times> int \<times> int \<Rightarrow> (mem \<times> int \<times> int) option" where
  "induceSA_S T B i = (\<lambda>(s, b, c1). do {
     j \<leftarrow> load s (SAp 0) i;
     if 0 < j then do {
       let j = j - 1;
       a \<leftarrow> chr T j; a' \<leftarrow> chr T (j + 1);
       assert (a \<le> a');
       c0 \<leftarrow> chr T j;
       (s, b, c1) \<leftarrow> switch_bucket B c0 (s, b, c1);
       assert (b \<le> i);
       f \<leftarrow> (if j = 0 then Some True else do { c \<leftarrow> chr T (j - 1); Some (c > c1) });
       let b = b - 1;
       s \<leftarrow> store s (SAp 0) b (if f then NOT j else j);
       Some (s, b, c1) }
     else do {
       s \<leftarrow> store s (SAp 0) i (NOT j);
       Some (s, b, c1) } })"

definition induceSA :: "chars \<Rightarrow> ptr \<Rightarrow> ptr \<Rightarrow> int \<Rightarrow> int \<Rightarrow> mem \<Rightarrow> mem option" where
  "induceSA T C B n k s = do {
     s \<leftarrow> (if C = B then getCounts T C n k s else Some s);
     s \<leftarrow> getBuckets C B k False s;
     let j = n - 1;
     c1 \<leftarrow> chr T j;
     b \<leftarrow> load s B c1;
     f \<leftarrow> (if 0 < j then do { c \<leftarrow> chr T (j - 1); Some (c < c1) } else Some False);
     s \<leftarrow> store s (SAp 0) b (if f then NOT j else j);
     let b = b + 1;
     (s, b, c1) \<leftarrow> iter (up n) (induceSA_L T B) (s, b, c1);
     s \<leftarrow> (if C = B then getCounts T C n k s else Some s);
     s \<leftarrow> getBuckets C B k True s;
     b \<leftarrow> load s B 0;
     (s, b, c1) \<leftarrow> iter (down n) (induceSA_S T B) (s, b, 0);
     Some s }"

section \<open>The entry point\<close>

definition MINBUCKETSIZE :: int where
  "MINBUCKETSIZE = 256"

definition SAIS_LMSSORT2_LIMIT :: int where
  "SAIS_LMSSORT2_LIMIT = 0x3fffffff"

text \<open>
  A block of \<^verbatim>\<open>computeSA\<close> either executes \<^verbatim>\<open>return v\<close> (\<open>Ret v s\<close>, with the memory at
  that moment) or falls through to the next block with its results.
\<close>

datatype 'a flow = Ret int mem | Go 'a

subsection \<open>Workspace policy\<close>

text \<open>
  The first \<^verbatim>\<open>if\<close> cascade of \<^verbatim>\<open>computeSA\<close>: where \<^verbatim>\<open>C\<close> and \<^verbatim>\<open>B\<close> live, and the regime
  \<^verbatim>\<open>flags\<close> (1: \<open>C\<close> on the heap, 2: \<open>B\<close> on the heap, 4: \<open>C = B\<close> on the heap,
  8: \<open>C\<close> and \<open>B\<close> are the same array).
\<close>

definition workspace :: "int \<Rightarrow> int \<Rightarrow> int \<Rightarrow> mem \<Rightarrow> (ptr \<times> ptr \<times> 32 word \<times> mem) flow option" where
  "workspace fs n k s =
     (if k \<le> MINBUCKETSIZE then
        (case malloc k s of
           (None, s) \<Rightarrow> Some (Ret (- 2) s)
         | (Some C, s) \<Rightarrow>
             if k \<le> fs then Some (Go (C, SAp (n + fs - k), 1, s))
             else (case malloc k s of
                 (None, s) \<Rightarrow> do { s \<leftarrow> free C s; Some (Ret (- 2) s) }
               | (Some B, s) \<Rightarrow> Some (Go (C, B, 3, s))))
      else if k \<le> fs then do {
        let C = SAp (n + fs - k);
        if k \<le> fs - k then do {
          B \<leftarrow> padd C (- k);
          Some (Go (C, B, 0, s)) }
        else if k \<le> MINBUCKETSIZE * 4 then
          (case malloc k s of
             (None, s) \<Rightarrow> Some (Ret (- 2) s)
           | (Some B, s) \<Rightarrow> Some (Go (C, B, 2, s)))
        else Some (Go (C, C, 8, s)) }
      else
        (case malloc k s of
           (None, s) \<Rightarrow> Some (Ret (- 2) s)
         | (Some C, s) \<Rightarrow> Some (Go (C, C, 4 OR 8, s))))"

text \<open>The choice of the two-pass sort: flag 16 puts \<^verbatim>\<open>D\<close> on the heap, flag 32 into \<^verbatim>\<open>SA\<close>.\<close>

definition sort_flags :: "int \<Rightarrow> int \<Rightarrow> int \<Rightarrow> 32 word \<Rightarrow> 32 word" where
  "sort_flags fs n k flags =
     (if n \<le> SAIS_LMSSORT2_LIMIT \<and> 2 \<le> n div k then
        (if flags AND 1 \<noteq> 0 then flags OR (if k * 2 \<le> fs - k then 32 else 16)
         else if flags = 0 \<and> k * 2 \<le> fs - k * 2 then flags OR 32
         else flags)
      else flags)"

subsection \<open>Stage 1: discovery of the LMS positions\<close>

text \<open>
  The loop \<^verbatim>\<open>for (; 0 <= i;) { ... }\<close> of the discovery scan with its locals \<open>i\<close>, \<open>j\<close>, \<open>m\<close>,
  \<open>c0\<close> and the pointer \<open>b\<close>.  \<open>b\<close> starts as \<^verbatim>\<open>&t\<close>, the address of a local that is never
  read: that is \<open>None\<close>; afterwards it is an index into \<^verbatim>\<open>SA\<close>.
\<close>

definition store_at :: "int option \<Rightarrow> int \<Rightarrow> mem \<Rightarrow> mem option" where
  "store_at b v s = (case b of None \<Rightarrow> Some s | Some x \<Rightarrow> store s (SAp 0) x v)"

function lms_scan :: "chars \<Rightarrow> ptr \<Rightarrow> int \<Rightarrow> int \<Rightarrow> int \<Rightarrow> int \<Rightarrow> int option \<Rightarrow> mem
    \<Rightarrow> (mem \<times> int \<times> int \<times> int option) option" where
  "lms_scan T B i j m c0 b s =
     (if 0 \<le> i then do {
        (i, c0, c1) \<leftarrow> skip_le T i c0;
        if 0 \<le> i then do {
          s \<leftarrow> store_at b j s;
          v \<leftarrow> load s B c1;
          s \<leftarrow> store s B c1 (v - 1);
          let b = Some (v - 1);
          let j = i;
          let m = m + 1;
          (i, c0, c1) \<leftarrow> skip_ge T i c0;
          lms_scan T B i j m c0 b s }
        else lms_scan T B i j m c0 b s }
      else Some (s, j, m, b))"
  by pat_completeness auto
termination
  by (relation "measure (\<lambda>(T, B, i, j, m, c0, b, s). nat (i + 1))")
     (auto dest!: skip_le_less skip_ge_less)

declare lms_scan.simps [simp del]

definition stage1_scan :: "chars \<Rightarrow> ptr \<Rightarrow> ptr \<Rightarrow> int \<Rightarrow> int \<Rightarrow> mem
    \<Rightarrow> (mem \<times> int \<times> int \<times> int option) option" where
  "stage1_scan T C B n k s = do {
     s \<leftarrow> getCounts T C n k s;
     s \<leftarrow> getBuckets C B k True s;
     s \<leftarrow> iter (up n) (\<lambda>i s. store s (SAp 0) i 0) s;
     let b = None;
     let i = n - 1;
     let j = n;
     let m = 0;
     c0 \<leftarrow> chr T (n - 1);
     (i, c0, c1) \<leftarrow> skip_ge T i c0;
     lms_scan T B i j m c0 b s }"

subsection \<open>Stage 1: sorting and naming the LMS substrings\<close>

text \<open>
  The loop \<^verbatim>\<open>for (i = 0, j = 0; i < k; ++i)\<close> that flags the first entry of every non-empty
  bucket and clears \<^verbatim>\<open>D\<close>; the loop state is the memory with the running sum \<open>j\<close>.
\<close>

definition flag_step :: "ptr \<Rightarrow> ptr \<Rightarrow> ptr \<Rightarrow> int \<Rightarrow> int \<Rightarrow> int \<Rightarrow> mem \<times> int \<Rightarrow> (mem \<times> int) option" where
  "flag_step C B D n k i = (\<lambda>(s, j). do {
     c \<leftarrow> load s C i;
     let j = j + c;
     x \<leftarrow> load s B i;
     s \<leftarrow> (if x \<noteq> j then do {
            v \<leftarrow> load s (SAp 0) x;
            _ \<leftarrow> assert (v \<noteq> 0);
            store s (SAp 0) x (v + n) }
          else Some s);
     s \<leftarrow> store s D (i + k) 0;
     s \<leftarrow> store s D i 0;
     Some (s, j) })"

text \<open>
  The array \<^verbatim>\<open>D\<close> of the two-pass sort: a heap block of \<open>2k\<close> integers under flag 16,
  otherwise the \<open>2k\<close> integers below \<^verbatim>\<open>B\<close>.  When the allocation fails the function returns.
\<close>

definition alloc_D :: "32 word \<Rightarrow> ptr \<Rightarrow> ptr \<Rightarrow> int \<Rightarrow> mem \<Rightarrow> (ptr \<times> mem) flow option" where
  "alloc_D flags C B k s =
     (if flags AND 16 \<noteq> 0 then
        (case malloc (k * 2) s of
           (None, s) \<Rightarrow> do {
              s \<leftarrow> (if flags AND (1 OR 4) \<noteq> 0 then free C s else Some s);
              s \<leftarrow> (if flags AND 2 \<noteq> 0 then free B s else Some s);
              Some (Ret (- 2) s) }
         | (Some D, s) \<Rightarrow> Some (Go (D, s)))
      else do { D \<leftarrow> padd B (- (k * 2)); Some (Go (D, s)) })"

definition stage1_sort :: "chars \<Rightarrow> ptr \<Rightarrow> ptr \<Rightarrow> int \<Rightarrow> int \<Rightarrow> 32 word \<Rightarrow> int \<Rightarrow> int \<Rightarrow> int option
    \<Rightarrow> mem \<Rightarrow> (int \<times> mem) flow option" where
  "stage1_sort T C B n k flags j m b s =
     (if 1 < m then
        (if flags AND (16 OR 32) \<noteq> 0 then do {
           r \<leftarrow> alloc_D flags C B k s;
           case r of
             Ret v s \<Rightarrow> Some (Ret v s)
           | Go (D, s) \<Rightarrow> do {
               _ \<leftarrow> assert (j + 1 < n);
               c \<leftarrow> chr T (j + 1);
               v \<leftarrow> load s B c;
               s \<leftarrow> store s B c (v + 1);
               (s, j) \<leftarrow> iter (up k) (flag_step C B D n k) (s, 0);
               s \<leftarrow> LMSsort2 T C B D n k s;
               (name, s) \<leftarrow> postProcLMS2 n m s;
               s \<leftarrow> (if flags AND 16 \<noteq> 0 then free D s else Some s);
               Some (Go (name, s)) } }
         else do {
           s \<leftarrow> sortLMS1 T C B n k s;
           (name, s) \<leftarrow> postProcLMS1 T n m s;
           Some (Go (name, s)) })
      else if m = 1 then do {
        s \<leftarrow> store_at b (j + 1) s;
        Some (Go (1, s)) }
      else Some (Go (0, s)))"

text \<open>
  Everything \<^verbatim>\<open>computeSA\<close> does before stage 2: the entry assertion, the workspace policy,
  the discovery scan, and the sort and naming of the LMS substrings.  It falls through with
  \<open>(C, B, flags, m, name, memory)\<close>.
\<close>

definition stage1 :: "chars \<Rightarrow> int \<Rightarrow> int \<Rightarrow> int \<Rightarrow> mem
    \<Rightarrow> (ptr \<times> ptr \<times> 32 word \<times> int \<times> int \<times> mem) flow option" where
  "stage1 T fs n k s = do {
     _ \<leftarrow> assert (0 \<le> fs \<and> 0 < n \<and> 1 \<le> k);
     w \<leftarrow> workspace fs n k s;
     case w of
       Ret v s \<Rightarrow> Some (Ret v s)
     | Go (C, B, flags, s) \<Rightarrow> do {
         let flags = sort_flags fs n k flags;
         (s, j, m, b) \<leftarrow> stage1_scan T C B n k s;
         r \<leftarrow> stage1_sort T C B n k flags j m b s;
         case r of
           Ret v s \<Rightarrow> Some (Ret v s)
         | Go (name, s) \<Rightarrow> Some (Go (C, B, flags, m, name, s)) } }"

subsection \<open>Stage 2: the reduced problem\<close>

text \<open>
  The part of stage 2 before the recursive call: the heap copies of \<^verbatim>\<open>C\<close> and \<^verbatim>\<open>B\<close> are
  released, \<^verbatim>\<open>newfs\<close> is chosen, and the names are gathered into \<^verbatim>\<open>RA = SA + m + newfs\<close>.
  The result is \<open>(newfs, flags, memory)\<close>.
\<close>

definition stage2_reduce :: "ptr \<Rightarrow> ptr \<Rightarrow> int \<Rightarrow> int \<Rightarrow> int \<Rightarrow> int \<Rightarrow> int \<Rightarrow> 32 word \<Rightarrow> mem
    \<Rightarrow> (int \<times> 32 word \<times> mem) option" where
  "stage2_reduce C B fs n k m name flags s = do {
     s \<leftarrow> (if flags AND 4 \<noteq> 0 then free C s else Some s);
     s \<leftarrow> (if flags AND 2 \<noteq> 0 then free B s else Some s);
     let newfs = (n + fs) - (m * 2);
     let (newfs, flags) =
       (if flags AND (1 OR 4 OR 8) = 0 then
          (if k + name \<le> newfs then (newfs - k, flags) else (newfs, flags OR 8))
        else (newfs, flags));
     _ \<leftarrow> assert (drop_bit 1 n \<le> newfs + m);
     let RA = SAp (m + newfs);
     (s, j) \<leftarrow> iter (rev [m..m + drop_bit 1 n - 1]) (\<lambda>i (s, j). do {
        v \<leftarrow> load s (SAp 0) i;
        if v \<noteq> 0 then do { s \<leftarrow> store s RA j (v - 1); Some (s, j - 1) } else Some (s, j) })
        (s, m - 1);
     Some (newfs, flags, s) }"

text \<open>
  The second discovery sweep, which writes the LMS positions in text order into \<^verbatim>\<open>RA\<close>:
  the loop \<^verbatim>\<open>for (; 0 <= i;) { ... RA[j--] = i + 1; ... }\<close>.
\<close>

function lms_positions :: "chars \<Rightarrow> ptr \<Rightarrow> int \<Rightarrow> int \<Rightarrow> int \<Rightarrow> mem \<Rightarrow> mem option" where
  "lms_positions T RA i j c0 s =
     (if 0 \<le> i then do {
        (i, c0, c1) \<leftarrow> skip_le T i c0;
        if 0 \<le> i then do {
          s \<leftarrow> store s RA j (i + 1);
          let j = j - 1;
          (i, c0, c1) \<leftarrow> skip_ge T i c0;
          lms_positions T RA i j c0 s }
        else lms_positions T RA i j c0 s }
      else Some s)"
  by pat_completeness auto
termination
  by (relation "measure (\<lambda>(T, RA, i, j, c0, s). nat (i + 1))")
     (auto dest!: skip_le_less skip_ge_less)

declare lms_positions.simps [simp del]

text \<open>
  The end of stage 2: the heap copies of \<^verbatim>\<open>C\<close> and \<^verbatim>\<open>B\<close> that were released before the
  recursive call are allocated again.  The result is the new \<open>(C, B, memory)\<close>.
\<close>

definition stage2_realloc :: "ptr \<Rightarrow> ptr \<Rightarrow> int \<Rightarrow> 32 word \<Rightarrow> mem \<Rightarrow> (ptr \<times> ptr \<times> mem) flow option" where
  "stage2_realloc C B k flags s = do {
     r \<leftarrow> (if flags AND 4 \<noteq> 0 then
            (case malloc k s of
               (None, s) \<Rightarrow> Some (Ret (- 2) s)
             | (Some p, s) \<Rightarrow> Some (Go (p, p, s)))
          else Some (Go (C, B, s)));
     case r of
       Ret v s \<Rightarrow> Some (Ret v s)
     | Go (C, B, s) \<Rightarrow>
         (if flags AND 2 \<noteq> 0 then
            (case malloc k s of
               (None, s) \<Rightarrow> do {
                  s \<leftarrow> (if flags AND 1 \<noteq> 0 then free C s else Some s);
                  Some (Ret (- 2) s) }
             | (Some p, s) \<Rightarrow> Some (Go (C, p, s)))
          else Some (Go (C, B, s))) }"

text \<open>
  The part of stage 2 after a successful recursive call: the LMS positions are written into
  \<^verbatim>\<open>RA\<close>, ranks are mapped back to text positions, and \<^verbatim>\<open>C\<close> and \<^verbatim>\<open>B\<close> are allocated again.
\<close>

definition stage2_expand :: "chars \<Rightarrow> ptr \<Rightarrow> ptr \<Rightarrow> int \<Rightarrow> int \<Rightarrow> int \<Rightarrow> int \<Rightarrow> 32 word \<Rightarrow> mem
    \<Rightarrow> (ptr \<times> ptr \<times> mem) flow option" where
  "stage2_expand T C B n k m newfs flags s = do {
     let RA = SAp (m + newfs);
     let i = n - 1;
     let j = m - 1;
     c0 \<leftarrow> chr T (n - 1);
     (i, c0, c1) \<leftarrow> skip_ge T i c0;
     s \<leftarrow> lms_positions T RA i j c0 s;
     s \<leftarrow> iter (up m) (\<lambda>i s. do {
        r \<leftarrow> load s (SAp 0) i;
        v \<leftarrow> load s RA r;
        store s (SAp 0) i v }) s;
     stage2_realloc C B k flags s }"

subsection \<open>Stage 3: inducing the result\<close>

text \<open>\<^verbatim>\<open>while (q < j) { SA[--j] = 0; }\<close>, giving the final \<open>j\<close>.\<close>

function zero_down :: "int \<Rightarrow> int \<Rightarrow> mem \<Rightarrow> (mem \<times> int) option" where
  "zero_down q j s =
     (if q < j then do { s \<leftarrow> store s (SAp 0) (j - 1) 0; zero_down q (j - 1) s }
      else Some (s, j))"
  by pat_completeness auto
termination
  by (relation "measure (\<lambda>(q, j, s). nat (j - q))") auto

declare zero_down.simps [simp del]

text \<open>
  \<^verbatim>\<open>do { SA[--j] = p; if (--i < 0) { break; } p = SA[i]; } while ((c1 = chr(p)) == c0);\<close>
  giving \<open>(memory, i, j, p, c1)\<close>.
\<close>

function place_run :: "chars \<Rightarrow> int \<Rightarrow> int \<Rightarrow> int \<Rightarrow> int \<Rightarrow> int \<Rightarrow> mem
    \<Rightarrow> (mem \<times> int \<times> int \<times> int \<times> int) option" where
  "place_run T c0 i j p c1 s = do {
     s \<leftarrow> store s (SAp 0) (j - 1) p;
     if i - 1 < 0 then Some (s, i - 1, j - 1, p, c1)
     else do {
       p \<leftarrow> load s (SAp 0) (i - 1);
       c1 \<leftarrow> chr T p;
       if c1 = c0 then place_run T c0 (i - 1) (j - 1) p c1 s
       else Some (s, i - 1, j - 1, p, c1) } }"
  by pat_completeness auto
termination
  by (relation "measure (\<lambda>(T, c0, i, j, p, c1, s). nat i)") auto

declare place_run.simps [simp del]

lemma place_run_less: "place_run T c0 i j p c1 s = Some (s', i', j', p', c1') \<Longrightarrow> i' < i"
proof (induction T c0 i j p c1 s rule: place_run.induct)
  case (1 T c0 i j p c1 s)
  from "1.prems" "1.IH" show ?case
    by (subst (asm) place_run.simps) (fastforce split: if_splits bind_splits)
qed

text \<open>The enclosing \<^verbatim>\<open>do { q = B[c0 = c1]; ... } while (0 <= i);\<close>, giving the final \<open>j\<close>.\<close>

function place_lms :: "chars \<Rightarrow> ptr \<Rightarrow> int \<Rightarrow> int \<Rightarrow> int \<Rightarrow> int \<Rightarrow> mem \<Rightarrow> (mem \<times> int) option" where
  "place_lms T B i j p c1 s = do {
     let c0 = c1;
     q \<leftarrow> load s B c0;
     (s, j) \<leftarrow> zero_down q j s;
     (s, i', j, p, c1) \<leftarrow> place_run T c0 i j p c1 s;
     if 0 \<le> i' then place_lms T B i' j p c1 s
     else Some (s, j) }"
  by pat_completeness auto
termination
  by (relation "measure (\<lambda>(T, B, i, j, p, c1, s). nat (i + 1))")
     (auto dest!: place_run_less)

declare place_lms.simps [simp del]

definition stage3 :: "chars \<Rightarrow> ptr \<Rightarrow> ptr \<Rightarrow> int \<Rightarrow> int \<Rightarrow> int \<Rightarrow> 32 word \<Rightarrow> mem \<Rightarrow> (int \<times> mem) option" where
  "stage3 T C B n k m flags s = do {
     s \<leftarrow> (if flags AND 8 \<noteq> 0 then getCounts T C n k s else Some s);
     s \<leftarrow> (if 1 < m then do {
            s \<leftarrow> getBuckets C B k True s;
            p \<leftarrow> load s (SAp 0) (m - 1);
            c1 \<leftarrow> chr T p;
            (s, j) \<leftarrow> place_lms T B (m - 1) n p c1 s;
            (s, j) \<leftarrow> zero_down 0 j s;
            Some s }
          else Some s);
     s \<leftarrow> induceSA T C B n k s;
     s \<leftarrow> (if flags AND (1 OR 4) \<noteq> 0 then free C s else Some s);
     s \<leftarrow> (if flags AND 2 \<noteq> 0 then free B s else Some s);
     Some (0, s) }"

subsection \<open>computeSA\<close>

lemma lms_scan_count:
  "lms_scan T B i j m c0 b s = Some (s', j', m', b') \<Longrightarrow> 2 * (m' - m) \<le> max 0 (i + 1)"
proof (induction T B i j m c0 b s rule: lms_scan.induct)
  case (1 T B i j m c0 b s)
  show ?case
  proof (cases "0 \<le> i")
    case False
    with "1.prems" show ?thesis
      by (subst (asm) lms_scan.simps) simp
  next
    case True
    from "1.prems" True obtain i1 c01 c11 where
      le: "skip_le T i c0 = Some (i1, c01, c11)"
      by (subst (asm) lms_scan.simps) (auto split: bind_splits)
    have i1: "i1 < i" using le by (rule skip_le_less)
    show ?thesis
    proof (cases "0 \<le> i1")
      case False
      with "1.prems" True le have "lms_scan T B i1 j m c01 b s = Some (s', j', m', b')"
        by (subst (asm) lms_scan.simps) simp
      with False have "m' = m"
        by (subst (asm) lms_scan.simps) simp
      then show ?thesis by simp
    next
      case ge: True
      from "1.prems" True le ge obtain s1 v s2 i2 c02 c12 where
        st: "store_at b j s = Some s1" "load s1 B c11 = Some v" "store s1 B c11 (v - 1) = Some s2"
        and sk: "skip_ge T i1 c01 = Some (i2, c02, c12)"
        and rec: "lms_scan T B i2 i1 (m + 1) c02 (Some (v - 1)) s2 = Some (s', j', m', b')"
        by (subst (asm) lms_scan.simps) (auto split: bind_splits)
      have i2: "i2 < i1" using sk by (rule skip_ge_less)
      have "2 * (m' - (m + 1)) \<le> max 0 (i2 + 1)"
        using "1.IH"(1)[OF True le refl refl ge st(1) st(2) st(3) refl refl refl sk refl refl rec]
        by simp
      with i1 i2 ge show ?thesis by simp
    qed
  qed
qed

lemma stage1_scan_count:
  assumes "stage1_scan T C B n k s = Some (s', j, m, b)" and "0 < n"
  shows "2 * m < n"
proof -
  from assms(1) obtain s1 c0 i c0' c1' where
    sk: "skip_ge T (n - 1) c0 = Some (i, c0', c1')"
    and sc: "lms_scan T B i n 0 c0' None s1 = Some (s', j, m, b)"
    by (auto simp: stage1_scan_def split: bind_splits)
  have "i < n - 1" using sk by (rule skip_ge_less)
  moreover have "2 * (m - 0) \<le> max 0 (i + 1)" using sc by (rule lms_scan_count)
  ultimately show ?thesis using assms(2) by simp
qed

lemma stage1_count:
  assumes "stage1 T fs n k s = Some (Go (C, B, flags, m, name, s'))"
  shows "2 * m < n \<and> 0 < n"
  using assms
  by (auto simp: stage1_def assert_def Let_def split: bind_splits if_splits flow.splits
           dest!: stage1_scan_count)

text \<open>
  The recursive call works on the front part \<^verbatim>\<open>SA[0 .. m + newfs)\<close> of the buffer and reads
  its text \<^verbatim>\<open>RA\<close> from the \<open>m\<close> elements behind it.  The callee gets exactly the part of the
  buffer that its parameters \<open>n = m\<close> and \<open>fs = newfs\<close> describe, so an access beyond it is
  out of bounds for the callee; the rest of the buffer is put back behind the callee's
  result.  The heap and the allocation counter are shared with the callee.
\<close>

function computeSA :: "chars \<Rightarrow> int \<Rightarrow> int \<Rightarrow> int \<Rightarrow> mem \<Rightarrow> (int \<times> mem) option" where
  "computeSA T fs n k s = do {
     r \<leftarrow> stage1 T fs n k s;
     case r of
       Ret v s \<Rightarrow> Some (v, s)
     | Go (C, B, flags, m, name, s) \<Rightarrow> do {
         r \<leftarrow> (if name < m then do {
                (newfs, flags, s) \<leftarrow> stage2_reduce C B fs n k m name flags s;
                let RA = take (nat m) (drop (nat (m + newfs)) (sa s));
                (v, s') \<leftarrow> computeSA RA newfs m name (s\<lparr>sa := take (nat (m + newfs)) (sa s)\<rparr>);
                let s = s'\<lparr>sa := sa s' @ drop (nat (m + newfs)) (sa s)\<rparr>;
                if v \<noteq> 0 then do {
                  s \<leftarrow> (if flags AND 1 \<noteq> 0 then free C s else Some s);
                  Some (Ret (- 2) s) }
                else do {
                  r \<leftarrow> stage2_expand T C B n k m newfs flags s;
                  case r of
                    Ret v s \<Rightarrow> Some (Ret v s)
                  | Go (C, B, s) \<Rightarrow> Some (Go (C, B, flags, s)) } }
              else Some (Go (C, B, flags, s)));
         case r of
           Ret v s \<Rightarrow> Some (v, s)
         | Go (C, B, flags, s) \<Rightarrow> stage3 T C B n k m flags s } }"
  by pat_completeness auto
termination
  by (relation "measure (\<lambda>(T, fs, n, k, s). nat n)") (auto dest!: stage1_count)

declare computeSA.simps [simp del]

section \<open>Notions used in the statements\<close>

definition shape :: "mem \<Rightarrow> nat \<times> (nat \<Rightarrow> nat option) \<times> nat \<times> (nat \<Rightarrow> (nat \<Rightarrow> int) option)" where
  "shape s = (length (sa s), (\<lambda>b. map_option length (heap s b)), nalloc s, outcome s)"

definition wf_heap :: "mem \<Rightarrow> bool" where
  "wf_heap s \<longleftrightarrow> (\<forall>b xs. heap s b = Some xs \<longrightarrow> b < nalloc s)"

definition failed :: "mem \<Rightarrow> mem \<Rightarrow> bool" where
  "failed s s' \<longleftrightarrow> (\<exists>i. nalloc s \<le> i \<and> i < nalloc s' \<and> outcome s i = None)"

definition ext :: "mem \<Rightarrow> mem \<Rightarrow> bool" where
  "ext s s' \<longleftrightarrow> outcome s' = outcome s \<and> nalloc s \<le> nalloc s' \<and> length (sa s') = length (sa s)"

fun blk :: "ptr \<Rightarrow> nat set" where
  "blk (Hp b) = {b}"
| "blk (SAp off) = {}"

definition owned :: "32 word \<Rightarrow> ptr \<Rightarrow> ptr \<Rightarrow> nat set" where
  "owned flags C B = (if flags AND (1 OR 4) \<noteq> 0 then blk C else {}) \<union> (if flags AND 2 \<noteq> 0 then blk B else {})"

definition regime :: "32 word \<Rightarrow> ptr \<Rightarrow> ptr \<Rightarrow> nat set \<Rightarrow> mem \<Rightarrow> bool" where
  "regime flags C B L s \<longleftrightarrow>
     dom (heap s) = L \<union> owned flags C B \<and> L \<inter> owned flags C B = {}
     \<and> (flags AND 4 \<noteq> 0 \<longrightarrow> flags AND 1 = 0 \<and> flags AND 2 = 0)
     \<and> (flags AND 1 \<noteq> 0 \<and> flags AND 2 \<noteq> 0 \<longrightarrow> blk C \<inter> blk B = {})"

subsection \<open>Initial memories and results\<close>

text \<open>
  A memory in which no block has been allocated yet and every \<^verbatim>\<open>malloc\<close> succeeds; \<open>xs\<close> is
  the initial content of \<^verbatim>\<open>SA\<close> and \<open>J i\<close> the initial content of the \<open>i\<close>-th block.
\<close>

definition fresh_mem :: "int list \<Rightarrow> (nat \<Rightarrow> nat \<Rightarrow> int) \<Rightarrow> mem" where
  "fresh_mem xs J = \<lparr>sa = xs, heap = Map.empty, nalloc = 0, outcome = (\<lambda>i. Some (J i))\<rparr>"

text \<open>The return value of a call together with the output \<^verbatim>\<open>SA[0 .. n)\<close>.\<close>

definition sa_prefix :: "nat \<Rightarrow> (int \<times> mem) option \<Rightarrow> (int \<times> int list) option" where
  "sa_prefix n r = map_option (\<lambda>(v, s). (v, take n (sa s))) r"

text \<open>
  A memory without live blocks in which \<^verbatim>\<open>malloc\<close> call number \<open>i\<close> returns \<^verbatim>\<open>NULL\<close> and
  every other call succeeds with a zero-filled block.
\<close>

definition failing_mem :: "int list \<Rightarrow> nat \<Rightarrow> mem" where
  "failing_mem xs i =
     \<lparr>sa = xs, heap = Map.empty, nalloc = 0, outcome = (\<lambda>j. if j = i then None else Some (\<lambda>_. 0))\<rparr>"

text \<open>The return value of a call together with the number of \<^verbatim>\<open>malloc\<close> calls it made.\<close>

definition status_allocs :: "mem \<Rightarrow> (int \<times> mem) option \<Rightarrow> (int \<times> nat) option" where
  "status_allocs s r = map_option (\<lambda>(v, s'). (v, nalloc s' - nalloc s)) r"

subsection \<open>Buffers\<close>

text \<open>
  The memory cells of the buffer of \<open>len\<close> integers that starts at \<open>p\<close>: a cell is a block
  (\<open>None\<close> for \<^verbatim>\<open>SA\<close>) with an index.
\<close>

definition cells :: "ptr \<Rightarrow> int \<Rightarrow> (nat option \<times> int) set" where
  "cells p len = (case p of
       SAp off \<Rightarrow> {(None, i) | i. off \<le> i \<and> i < off + len}
     | Hp b \<Rightarrow> {(Some b, i) | i. 0 \<le> i \<and> i < len})"

text \<open>The cell that \<^verbatim>\<open>p[i]\<close> denotes.\<close>

fun cell :: "ptr \<Rightarrow> int \<Rightarrow> nat option \<times> int" where
  "cell (SAp off) i = (None, off + i)"
| "cell (Hp b) i = (Some b, i)"


subsection \<open>The recursive call\<close>


subsection \<open>The L/S classification of the specification\<close>

text \<open>
  The classification in the words of the specification, with the type of the last position
  as the parameter \<open>e\<close>: position \<open>i\<close> is S-type if \<open>T[i] < T[i+1]\<close>, or \<open>T[i] = T[i+1]\<close>
  and \<open>i + 1\<close> is S-type.  The specification defines the last position S-type
  (\<open>e = True\<close>).
\<close>

function s_type :: "bool \<Rightarrow> chars \<Rightarrow> nat \<Rightarrow> bool" where
  "s_type e T i =
     (if length T \<le> i + 1 then e
      else T ! i < T ! (i + 1) \<or> (T ! i = T ! (i + 1) \<and> s_type e T (i + 1)))"
  by pat_completeness auto
termination
  by (relation "measure (\<lambda>(e, T, i). length T - i)") auto

declare s_type.simps [simp del]

text \<open>Position \<open>i > 0\<close> is LMS iff it is S-type and \<open>i - 1\<close> is L-type.\<close>

definition lms :: "bool \<Rightarrow> chars \<Rightarrow> nat \<Rightarrow> bool" where
  "lms e T i \<longleftrightarrow> 0 < i \<and> i < length T \<and> s_type e T i \<and> \<not> s_type e T (i - 1)"

definition lms_count :: "bool \<Rightarrow> chars \<Rightarrow> nat" where
  "lms_count e T = length (filter (lms e T) [0..<length T])"

text \<open>The counter \<open>m\<close> of \<^verbatim>\<open>computeSA\<close> at the end of stage 1.\<close>

definition discovered :: "chars \<Rightarrow> int \<Rightarrow> int \<Rightarrow> int \<Rightarrow> mem \<Rightarrow> int option" where
  "discovered T fs n k s = do {
     r \<leftarrow> stage1 T fs n k s;
     case r of
       Ret v s \<Rightarrow> None
     | Go (C, B, flags, m, name, s) \<Rightarrow> Some m }"

text \<open>The classification on the loop indices of the code, with the last position L-type.\<close>

definition isS :: "chars \<Rightarrow> int \<Rightarrow> bool" where
  "isS T i = s_type False T (nat i)"

text \<open>The number of LMS positions among \<open>0, \<dots>, i\<close>.\<close>

definition lms_upto :: "chars \<Rightarrow> int \<Rightarrow> nat" where
  "lms_upto T i = length (filter (lms False T) [0..<nat (i + 1)])"

subsection \<open>Buckets\<close>

text \<open>
  The end and the start of the bucket of the symbol \<open>c\<close> in the suffix array of \<open>T\<close>: the
  number of positions with a symbol up to \<open>c\<close>, and below \<open>c\<close>.
\<close>

definition bucket_end :: "chars \<Rightarrow> int \<Rightarrow> int" where
  "bucket_end T c = int (length (filter (\<lambda>x. x \<le> c) T))"

definition bucket_start :: "chars \<Rightarrow> int \<Rightarrow> int" where
  "bucket_start T c = int (length (filter (\<lambda>x. x < c) T))"

text \<open>
  The slot that the discovery scan reserves for the LMS position \<open>p\<close>: the scan runs from
  right to left and fills the bucket of \<open>T[p]\<close> from its end, so the slot lies as many places
  below the end of the bucket as there are LMS positions from \<open>p\<close> on with the symbol \<open>T[p]\<close>.
\<close>

definition lms_from :: "chars \<Rightarrow> nat \<Rightarrow> int \<Rightarrow> int" where
  "lms_from T p c = int (length (filter (\<lambda>q. lms False T q \<and> T ! q = c) [p..<length T]))"

definition lms_slot :: "chars \<Rightarrow> nat \<Rightarrow> int" where
  "lms_slot T p = bucket_end T (T ! p) - lms_from T p (T ! p)"

text \<open>
  The state of \<^verbatim>\<open>computeSA\<close> after the discovery scan of stage 1: \<^verbatim>\<open>SA[0 .. n)\<close> with the locals
  \<open>j\<close>, \<open>m\<close> and \<open>b\<close>.
\<close>

definition scanned :: "chars \<Rightarrow> int \<Rightarrow> int \<Rightarrow> int \<Rightarrow> mem \<Rightarrow> (int list \<times> int \<times> int \<times> int option) option" where
  "scanned T fs n k s = do {
     _ \<leftarrow> assert (0 \<le> fs \<and> 0 < n \<and> 1 \<le> k);
     w \<leftarrow> workspace fs n k s;
     case w of
       Ret v s \<Rightarrow> None
     | Go (C, B, flags, s) \<Rightarrow> do {
         (s, j, m, b) \<leftarrow> stage1_scan T C B n k s;
         Some (take (nat n) (sa s), j, m, b) } }"

text \<open>Between the memories \<open>s\<close> and \<open>s'\<close> every cell outside \<open>X\<close> reads the same.\<close>

definition frame :: "mem \<Rightarrow> mem \<Rightarrow> (nat option \<times> int) set \<Rightarrow> bool" where
  "frame s s' X \<longleftrightarrow> (\<forall>q j. cell q j \<notin> X \<longrightarrow> load s' q j = load s q j)"

text \<open>The number of occurrences of the symbol \<open>c\<close> in \<open>T\<close>.\<close>

definition occ :: "chars \<Rightarrow> int \<Rightarrow> int" where
  "occ T c = int (length (filter (\<lambda>x. x = c) T))"

text \<open>
  The invariant of the discovery scan at the head of its loop, when the LMS positions above
  \<open>i + 1\<close> have been discovered: \<^verbatim>\<open>B\<close> holds the bucket ends less the slots given out, the
  last discovered position \<open>j + 1\<close> is pending with its slot in \<open>b\<close>, the other discovered
  positions \<open>q\<close> are stored as \<open>q - 1\<close> in their slots, and every other slot of \<^verbatim>\<open>SA[0..n)\<close>
  is zero.
\<close>

definition scan_inv :: "chars \<Rightarrow> int \<Rightarrow> int \<Rightarrow> ptr \<Rightarrow> int \<Rightarrow> int \<Rightarrow> int option \<Rightarrow> mem \<Rightarrow> bool" where
  "scan_inv T n k B i j b s \<longleftrightarrow>
     (\<forall>c. 0 \<le> c \<and> c < k \<longrightarrow> load s B c = Some (bucket_end T c - lms_from T (nat (i + 2)) c))
   \<and> (case b of
         None \<Rightarrow> j = n \<and> (\<forall>q. lms False T q \<longrightarrow> int q \<le> i + 1)
       | Some x \<Rightarrow> 0 \<le> j \<and> lms False T (nat (j + 1)) \<and> i < j
           \<and> (\<forall>q. lms False T q \<and> i + 1 < int q \<longrightarrow> j + 1 \<le> int q)
           \<and> x = lms_slot T (nat (j + 1)))
   \<and> (\<forall>q. lms False T q \<and> j + 1 < int q \<longrightarrow> load s (SAp 0) (lms_slot T q) = Some (int q - 1))
   \<and> (\<forall>x. 0 \<le> x \<and> x < n \<and> (\<forall>q. lms False T q \<and> j + 1 < int q \<longrightarrow> lms_slot T q \<noteq> x)
         \<longrightarrow> load s (SAp 0) x = Some 0)"

text \<open>
  The array of length \<open>|T|\<close> that holds \<open>p - 1\<close> in the slot of every position \<open>p\<close> of the list
  \<open>ps\<close>, and zero elsewhere.
\<close>

definition placement :: "chars \<Rightarrow> nat list \<Rightarrow> int list" where
  "placement T ps = fold (\<lambda>p xs. xs[nat (lms_slot T p) := int p - 1]) ps (replicate (length T) 0)"

section \<open>Operations that keep the shape of the memory\<close>

lemma wr_length: "wr xs i v = Some ys \<Longrightarrow> length ys = length xs"
  by (auto simp: wr_def split: if_splits)

lemma store_shape: "store s p i v = Some s' \<Longrightarrow> shape s' = shape s"
  by (cases p) (auto simp: store_def shape_def fun_eq_iff dest!: wr_length split: option.splits)

lemma iter_inv:
  assumes "iter is f x = Some y"
    and "\<And>i x y. f i x = Some y \<Longrightarrow> h y = h x"
  shows "h y = h x"
  using assms(1)
proof (induction "is" arbitrary: x)
  case Nil
  then show ?case by simp
next
  case (Cons i "is")
  from Cons.prems obtain x' where a: "f i x = Some x'" and b: "iter is f x' = Some y"
    by (auto split: bind_splits)
  have "h x' = h x" using assms(2)[OF a] .
  moreover have "h y = h x'" using Cons.IH[OF b] .
  ultimately show ?case by simp
qed

lemma iter_shape:
  "iter is f x = Some y \<Longrightarrow> (\<And>i x y. f i x = Some y \<Longrightarrow> shape (fst y) = shape (fst x))
   \<Longrightarrow> shape (fst y) = shape (fst x)"
  by (rule iter_inv[where h = "\<lambda>x. shape (fst x)"])

lemma iter_shape0:
  "iter is f s = Some s' \<Longrightarrow> (\<And>i x y. f i x = Some y \<Longrightarrow> shape y = shape x)
   \<Longrightarrow> shape s' = shape s"
  by (rule iter_inv[where h = shape])

lemma getCounts_shape: "getCounts T C n k s = Some s' \<Longrightarrow> shape s' = shape s"
  unfolding getCounts_def
  by (auto split: bind_splits dest!: iter_shape0 dest: store_shape)

lemma getBuckets_shape: "getBuckets C B k e s = Some s' \<Longrightarrow> shape s' = shape s"
  unfolding getBuckets_def
  by (auto split: bind_splits if_splits dest!: iter_shape dest: store_shape)

lemma switch_bucket_shape: "switch_bucket B c0 (s, b, c1) = Some (s', b', c1') \<Longrightarrow> shape s' = shape s"
  by (auto simp: switch_bucket_def split: bind_splits if_splits dest: store_shape)

lemma sortLMS1_L_shape: "sortLMS1_L T B i x = Some y \<Longrightarrow> shape (fst y) = shape (fst x)"
  by (cases x) (auto simp: sortLMS1_L_def Let_def split: bind_splits if_splits dest!: store_shape switch_bucket_shape)

lemma sortLMS1_S_shape: "sortLMS1_S T B i x = Some y \<Longrightarrow> shape (fst y) = shape (fst x)"
  by (cases x) (auto simp: sortLMS1_S_def Let_def split: bind_splits if_splits dest!: store_shape switch_bucket_shape)

lemma sortLMS1_L_iter_shape: "iter is (sortLMS1_L T B) x = Some y \<Longrightarrow> shape (fst y) = shape (fst x)"
  by (erule iter_shape) (rule sortLMS1_L_shape)

lemma sortLMS1_S_iter_shape: "iter is (sortLMS1_S T B) x = Some y \<Longrightarrow> shape (fst y) = shape (fst x)"
  by (erule iter_shape) (rule sortLMS1_S_shape)

lemma sortLMS1_shape: "sortLMS1 T C B n k s = Some s' \<Longrightarrow> shape s' = shape s"
  unfolding sortLMS1_def Let_def
  by (auto split: bind_splits if_splits
      dest!: getCounts_shape getBuckets_shape store_shape sortLMS1_L_iter_shape sortLMS1_S_iter_shape)

lemma compact_head_shape: "compact_head n i s = Some (s', i') \<Longrightarrow> shape s' = shape s"
proof (induction n i s rule: compact_head.induct)
  case (1 n i s)
  from "1.prems" "1.IH" show ?case
    by (subst (asm) compact_head.simps)
       (fastforce split: bind_splits if_splits dest: store_shape)
qed

lemma compact_rest_shape: "compact_rest n m i j s = Some s' \<Longrightarrow> shape s' = shape s"
proof (induction n m i j s rule: compact_rest.induct)
  case (1 n m i j s)
  from "1.prems" "1.IH" show ?case
    by (subst (asm) compact_rest.simps)
       (fastforce split: bind_splits if_splits dest: store_shape)
qed

lemma store_lengths_shape: "store_lengths T m i j c0 s = Some s' \<Longrightarrow> shape s' = shape s"
proof (induction T m i j c0 s rule: store_lengths.induct)
  case (1 T m i j c0 s)
  from "1.prems" "1.IH" show ?case
    by (subst (asm) store_lengths.simps)
       (fastforce simp: Let_def split: bind_splits if_splits dest: store_shape)
qed

lemma name_step_shape: "name_step T n m i x = Some y \<Longrightarrow> shape (fst y) = shape (fst x)"
  by (cases x) (auto simp: name_step_def Let_def split: bind_splits if_splits dest!: store_shape)

lemma name_step_iter_shape: "iter is (name_step T n m) x = Some y \<Longrightarrow> shape (fst y) = shape (fst x)"
  by (erule iter_shape) (rule name_step_shape)

lemma postProcLMS1_shape: "postProcLMS1 T n m s = Some (name, s') \<Longrightarrow> shape s' = shape s"
  unfolding postProcLMS1_def Let_def
  by (auto split: bind_splits if_splits
      dest!: compact_head_shape compact_rest_shape store_lengths_shape name_step_iter_shape)

lemma LMSsort2_L_shape: "LMSsort2_L T B D n i x = Some y \<Longrightarrow> shape (fst y) = shape (fst x)"
  by (cases x) (auto simp: LMSsort2_L_def Let_def split: bind_splits if_splits dest!: store_shape switch_bucket_shape)

lemma LMSsort2_L_iter_shape: "iter is (LMSsort2_L T B D n) x = Some y \<Longrightarrow> shape (fst y) = shape (fst x)"
  by (erule iter_shape) (rule LMSsort2_L_shape)

lemma LMSsort2_S_shape: "LMSsort2_S T B D n i x = Some y \<Longrightarrow> shape (fst y) = shape (fst x)"
  by (cases x) (auto simp: LMSsort2_S_def Let_def split: bind_splits if_splits dest!: store_shape switch_bucket_shape)

lemma LMSsort2_S_iter_shape: "iter is (LMSsort2_S T B D n) x = Some y \<Longrightarrow> shape (fst y) = shape (fst x)"
  by (erule iter_shape) (rule LMSsort2_S_shape)

lemma move_flags_shape: "move_flags n i s = Some s' \<Longrightarrow> shape s' = shape s"
proof (induction n i s rule: move_flags.induct)
  case (1 n i s)
  from "1.prems" "1.IH" show ?case
    by (subst (asm) move_flags.simps)
       (fastforce simp: Let_def split: bind_splits if_splits dest: store_shape)
qed

lemma LMSsort2_shape: "LMSsort2 T C B D n k s = Some s' \<Longrightarrow> shape s' = shape s"
  unfolding LMSsort2_def Let_def
  by (auto split: bind_splits if_splits
      dest!: getBuckets_shape store_shape LMSsort2_L_iter_shape LMSsort2_S_iter_shape move_flags_shape)

lemma compact_head2_shape: "compact_head2 n i name s = Some (s', i', name') \<Longrightarrow> shape s' = shape s"
proof (induction n i name s rule: compact_head2.induct)
  case (1 n i name s)
  from "1.prems" "1.IH" show ?case
    by (subst (asm) compact_head2.simps)
       (fastforce simp: Let_def split: bind_splits if_splits dest: store_shape)
qed

lemma compact_rest2_shape: "compact_rest2 n m i d name s = Some (s', name') \<Longrightarrow> shape s' = shape s"
proof (induction n m i d name s rule: compact_rest2.induct)
  case (1 n m i d name s)
  from "1.prems" "1.IH" show ?case
    by (subst (asm) compact_rest2.simps)
       (fastforce simp: Let_def split: bind_splits if_splits dest: store_shape)
qed

lemma postProcLMS2_shape: "postProcLMS2 n m s = Some (name, s') \<Longrightarrow> shape s' = shape s"
  unfolding postProcLMS2_def Let_def
  by (auto split: bind_splits if_splits prod.splits
      dest!: compact_head2_shape compact_rest2_shape iter_shape iter_shape0 dest: store_shape)

lemma induceSA_L_shape: "induceSA_L T B i x = Some y \<Longrightarrow> shape (fst y) = shape (fst x)"
  by (cases x) (auto simp: induceSA_L_def Let_def split: bind_splits if_splits dest!: store_shape switch_bucket_shape)

lemma induceSA_L_iter_shape: "iter is (induceSA_L T B) x = Some y \<Longrightarrow> shape (fst y) = shape (fst x)"
  by (erule iter_shape) (rule induceSA_L_shape)

lemma induceSA_S_shape: "induceSA_S T B i x = Some y \<Longrightarrow> shape (fst y) = shape (fst x)"
  by (cases x) (auto simp: induceSA_S_def Let_def split: bind_splits if_splits dest!: store_shape switch_bucket_shape)

lemma induceSA_S_iter_shape: "iter is (induceSA_S T B) x = Some y \<Longrightarrow> shape (fst y) = shape (fst x)"
  by (erule iter_shape) (rule induceSA_S_shape)

lemma induceSA_shape: "induceSA T C B n k s = Some s' \<Longrightarrow> shape s' = shape s"
  unfolding induceSA_def Let_def
  by (auto split: bind_splits if_splits
      dest!: getCounts_shape getBuckets_shape store_shape induceSA_L_iter_shape induceSA_S_iter_shape)

lemma store_at_shape: "store_at b v s = Some s' \<Longrightarrow> shape s' = shape s"
  by (auto simp: store_at_def split: option.splits dest: store_shape)

lemma lms_scan_shape: "lms_scan T B i j m c0 b s = Some (s', j', m', b') \<Longrightarrow> shape s' = shape s"
proof (induction T B i j m c0 b s rule: lms_scan.induct)
  case (1 T B i j m c0 b s)
  from "1.prems" "1.IH" show ?case
    by (subst (asm) lms_scan.simps)
       (fastforce simp: Let_def split: bind_splits if_splits dest: store_shape store_at_shape)
qed

lemma stage1_scan_shape: "stage1_scan T C B n k s = Some (s', j, m, b) \<Longrightarrow> shape s' = shape s"
  unfolding stage1_scan_def Let_def
  by (auto split: bind_splits if_splits
      dest!: getCounts_shape getBuckets_shape lms_scan_shape iter_shape0 dest: store_shape)

lemma flag_step_shape: "flag_step C B D n k i x = Some y \<Longrightarrow> shape (fst y) = shape (fst x)"
  by (cases x) (auto simp: flag_step_def Let_def split: bind_splits if_splits dest!: store_shape switch_bucket_shape)

lemma flag_step_iter_shape: "iter is (flag_step C B D n k) x = Some y \<Longrightarrow> shape (fst y) = shape (fst x)"
  by (erule iter_shape) (rule flag_step_shape)

lemma lms_positions_shape: "lms_positions T RA i j c0 s = Some s' \<Longrightarrow> shape s' = shape s"
proof (induction T RA i j c0 s rule: lms_positions.induct)
  case (1 T RA i j c0 s)
  from "1.prems" "1.IH" show ?case
    by (subst (asm) lms_positions.simps)
       (fastforce simp: Let_def split: bind_splits if_splits dest: store_shape)
qed

lemma zero_down_shape: "zero_down q j s = Some (s', j') \<Longrightarrow> shape s' = shape s"
proof (induction q j s rule: zero_down.induct)
  case (1 q j s)
  from "1.prems" "1.IH" show ?case
    by (subst (asm) zero_down.simps)
       (fastforce simp: Let_def split: bind_splits if_splits dest: store_shape)
qed

lemma place_run_shape: "place_run T c0 i j p c1 s = Some (s', i', j', p', c1') \<Longrightarrow> shape s' = shape s"
proof (induction T c0 i j p c1 s rule: place_run.induct)
  case (1 T c0 i j p c1 s)
  from "1.prems" "1.IH" show ?case
    by (subst (asm) place_run.simps)
       (fastforce simp: Let_def split: bind_splits if_splits dest: store_shape)
qed

lemma place_lms_shape: "place_lms T B i j p c1 s = Some (s', j') \<Longrightarrow> shape s' = shape s"
proof (induction T B i j p c1 s rule: place_lms.induct)
  case (1 T B i j p c1 s)
  from "1.prems" "1.IH" show ?case
    by (subst (asm) place_lms.simps)
       (fastforce simp: Let_def split: bind_splits if_splits dest: store_shape zero_down_shape place_run_shape)
qed

section \<open>Allocation bookkeeping\<close>

lemma shape_eqD:
  assumes "shape s' = shape s"
  shows "dom (heap s') = dom (heap s) \<and> nalloc s' = nalloc s \<and> outcome s' = outcome s \<and> length (sa s') = length (sa s)"
proof -
  from assms have l: "\<And>b. map_option length (heap s' b) = map_option length (heap s b)"
    and r: "nalloc s' = nalloc s" "outcome s' = outcome s" "length (sa s') = length (sa s)"
    by (simp_all add: shape_def fun_eq_iff)
  have "b \<in> dom (heap s') \<longleftrightarrow> b \<in> dom (heap s)" for b
    using l[of b] by (cases "heap s' b"; cases "heap s b") auto
  with r show ?thesis by blast
qed

lemma shape_ext: "shape s' = shape s \<Longrightarrow> ext s s' \<and> \<not> failed s s' \<and> dom (heap s') = dom (heap s) \<and> (wf_heap s' \<longleftrightarrow> wf_heap s)"
  by (drule shape_eqD) (auto simp: ext_def failed_def wf_heap_def dom_def set_eq_iff)

lemma ext_refl: "ext s s" by (simp add: ext_def)

lemma ext_trans: "ext s s' \<Longrightarrow> ext s' s'' \<Longrightarrow> ext s s''"
  by (auto simp: ext_def)

lemma failed_trans: "ext s s' \<Longrightarrow> ext s' s'' \<Longrightarrow> failed s s'' \<longleftrightarrow> failed s s' \<or> failed s' s''"
proof -
  assume a: "ext s s'" "ext s' s''"
  then have o: "outcome s' = outcome s" and n: "nalloc s \<le> nalloc s'" "nalloc s' \<le> nalloc s''"
    by (simp_all add: ext_def)
  have "(nalloc s \<le> i \<and> i < nalloc s'') \<longleftrightarrow> (nalloc s \<le> i \<and> i < nalloc s') \<or> (nalloc s' \<le> i \<and> i < nalloc s'')" for i
    using n by arith
  then show ?thesis unfolding failed_def o by blast
qed

lemma failed_refl: "\<not> failed s s" by (simp add: failed_def)

lemma malloc_Some:
  "malloc num s = (Some p, s') \<Longrightarrow>
     p = Hp (nalloc s) \<and> ext s s' \<and> \<not> failed s s' \<and> dom (heap s') = insert (nalloc s) (dom (heap s))
     \<and> nalloc s' = Suc (nalloc s)"
  by (auto simp: malloc_def ext_def failed_def less_Suc_eq split: option.splits)

lemma malloc_None:
  "malloc num s = (None, s') \<Longrightarrow> ext s s' \<and> failed s s' \<and> dom (heap s') = dom (heap s) \<and> nalloc s' = Suc (nalloc s)"
  by (auto simp: malloc_def ext_def failed_def split: option.splits)

lemma free_Some:
  "free p s = Some s' \<Longrightarrow> ext s s' \<and> \<not> failed s s' \<and> dom (heap s') = dom (heap s) - blk p \<and> nalloc s' = nalloc s"
  by (cases p) (auto simp: free_def ext_def failed_def split: option.splits if_splits)

lemma wf_heap_malloc: "malloc num s = (p, s') \<Longrightarrow> wf_heap s \<Longrightarrow> wf_heap s' \<and> nalloc s \<notin> dom (heap s)"
  by (auto simp: malloc_def wf_heap_def less_Suc_eq split: option.splits if_splits)

lemma wf_heap_free: "free p s = Some s' \<Longrightarrow> wf_heap s \<Longrightarrow> wf_heap s'"
  by (cases p) (auto simp: free_def wf_heap_def split: option.splits if_splits)

lemma sort_flags_bits:
  "sort_flags fs n k f AND 1 = f AND 1" "sort_flags fs n k f AND 2 = f AND 2"
  "sort_flags fs n k f AND 4 = f AND 4" "sort_flags fs n k f AND 5 = f AND 5"
  by (simp_all add: sort_flags_def word_ao_dist)

lemma workspace_alloc:
  assumes "workspace fs n k s = Some r" and "wf_heap s"
  shows "case r of
      Ret v s' \<Rightarrow> v = - 2 \<and> ext s s' \<and> failed s s' \<and> wf_heap s' \<and> dom (heap s') = dom (heap s)
        \<and> (k \<le> MINBUCKETSIZE \<longrightarrow> nalloc s < nalloc s')
    | Go (C, B, flags, s') \<Rightarrow> ext s s' \<and> \<not> failed s s' \<and> wf_heap s'
        \<and> dom (heap s') = dom (heap s) \<union> owned flags C B
        \<and> dom (heap s) \<inter> owned flags C B = {}
        \<and> (flags AND 4 \<noteq> 0 \<longrightarrow> flags AND 1 = 0 \<and> flags AND 2 = 0)
        \<and> (flags AND 1 \<noteq> 0 \<and> flags AND 2 \<noteq> 0 \<longrightarrow> blk C \<inter> blk B = {})
        \<and> (k \<le> MINBUCKETSIZE \<longrightarrow> nalloc s < nalloc s')"
  using assms
  unfolding workspace_def malloc_def free_def padd_def Let_def
  by (auto simp: owned_def ext_def failed_def wf_heap_def less_Suc_eq
           split: option.splits if_splits bind_splits;
      fastforce intro: exI[of _ "Suc (nalloc s)"])

lemma shape_acct:
  "shape s' = shape s \<Longrightarrow> dom (heap s') = dom (heap s) \<and> nalloc s' = nalloc s \<and> outcome s' = outcome s
     \<and> length (sa s') = length (sa s) \<and> (\<forall>b. (\<exists>xs. heap s' b = Some xs) = (\<exists>xs. heap s b = Some xs))"
  by (frule shape_eqD) (auto simp: dom_def set_eq_iff)

lemma alloc_D_alloc:
  assumes "alloc_D flags C B k s = Some r" and "wf_heap s"
  shows "case r of
      Ret v s' \<Rightarrow> v = - 2 \<and> ext s s' \<and> failed s s' \<and> wf_heap s' \<and> dom (heap s') = dom (heap s) - owned flags C B
    | Go (D, s') \<Rightarrow> ext s s' \<and> \<not> failed s s' \<and> wf_heap s'
        \<and> (if flags AND 16 \<noteq> 0
            then D = Hp (nalloc s) \<and> dom (heap s') = insert (nalloc s) (dom (heap s)) \<and> nalloc s \<notin> dom (heap s)
            else s' = s)"
  using assms
  unfolding alloc_D_def malloc_def free_def padd_def Let_def
  by (auto simp: owned_def ext_def failed_def wf_heap_def less_Suc_eq
           split: option.splits if_splits bind_splits ptr.splits;
      fastforce)

lemma stage1_sort_alloc:
  assumes "stage1_sort T C B n k flags j m b s = Some r" and "wf_heap s"
  shows "case r of
      Ret v s' \<Rightarrow> v = - 2 \<and> ext s s' \<and> failed s s' \<and> wf_heap s' \<and> dom (heap s') = dom (heap s) - owned flags C B
    | Go (name, s') \<Rightarrow> ext s s' \<and> \<not> failed s s' \<and> wf_heap s' \<and> dom (heap s') = dom (heap s)"
proof (cases "1 < m")
  case False
  with assms show ?thesis
    by (auto simp: stage1_sort_def split: if_splits bind_splits dest!: store_at_shape shape_ext)
       (simp_all add: ext_refl failed_refl)
next
  case m: True
  show ?thesis
  proof (cases "flags AND (16 OR 32) \<noteq> 0")
    case False
    with assms(1) m obtain s1 name s2 where
      a: "sortLMS1 T C B n k s = Some s1" "postProcLMS1 T n m s1 = Some (name, s2)" "r = Go (name, s2)"
      by (auto simp: stage1_sort_def split: if_splits bind_splits)
    have "shape s2 = shape s"
      using sortLMS1_shape[OF a(1)] postProcLMS1_shape[OF a(2)] by simp
    from shape_ext[OF this] a(3) assms(2) show ?thesis by simp
  next
    case two: True
    from assms(1) m two obtain rD where aD: "alloc_D flags C B k s = Some rD"
      by (auto simp: stage1_sort_def split: bind_splits)
    note specD = alloc_D_alloc[OF aD assms(2)]
    show ?thesis
    proof (cases rD)
      case (Ret v s')
      with assms(1) m two aD have "r = Ret v s'"
        by (auto simp: stage1_sort_def)
      with specD Ret show ?thesis by simp
    next
      case (Go x)
      obtain D s1 where x: "x = (D, s1)" by (cases x)
      from assms(1) m two aD Go x obtain c v s2 s3 j3 s4 name s5 s6 where
        st: "store s1 B c (v + 1) = Some s2"
        and fl: "iter (up k) (flag_step C B D n k) (s2, 0) = Some (s3, j3)"
        and so: "LMSsort2 T C B D n k s3 = Some s4"
        and pp: "postProcLMS2 n m s4 = Some (name, s5)"
        and fr: "(if flags AND 16 \<noteq> 0 then free D s5 else Some s5) = Some s6"
        and r: "r = Go (name, s6)"
        by (auto simp: stage1_sort_def split: bind_splits)
      have "shape s5 = shape s1"
        using store_shape[OF st] flag_step_iter_shape[OF fl] LMSsort2_shape[OF so] postProcLMS2_shape[OF pp]
        by simp
      note sh = shape_acct[OF this]
      from specD Go x have d: "ext s s1" "\<not> failed s s1" "wf_heap s1"
        "if flags AND 16 \<noteq> 0
            then D = Hp (nalloc s) \<and> dom (heap s1) = insert (nalloc s) (dom (heap s)) \<and> nalloc s \<notin> dom (heap s)
            else s1 = s"
        by simp_all
      show ?thesis
      proof (cases "flags AND 16 \<noteq> 0")
        case True
        with fr have f: "free D s5 = Some s6" by simp
        from free_Some[OF f] sh d True r show ?thesis
          by (auto simp: ext_def failed_def wf_heap_def dom_def set_eq_iff split: if_splits)
      next
        case False
        with fr have "s6 = s5" by simp
        with sh d False r show ?thesis
          by (auto simp: ext_def failed_def wf_heap_def dom_def set_eq_iff split: if_splits)
      qed
    qed
  qed
qed

lemma owned_sort_flags: "owned (sort_flags fs n k f) C B = owned f C B"
  by (simp add: owned_def sort_flags_bits)

lemma regime_sort_flags: "regime (sort_flags fs n k f) C B L s = regime f C B L s"
  by (simp add: regime_def owned_sort_flags sort_flags_bits)

lemma stage1_alloc:
  assumes "stage1 T fs n k s = Some r" and "wf_heap s"
  shows "case r of
      Ret v s' \<Rightarrow> v = - 2 \<and> ext s s' \<and> failed s s' \<and> wf_heap s' \<and> dom (heap s') = dom (heap s)
        \<and> (k \<le> MINBUCKETSIZE \<longrightarrow> nalloc s < nalloc s')
    | Go (C, B, flags, m, name, s') \<Rightarrow> ext s s' \<and> \<not> failed s s' \<and> wf_heap s'
        \<and> regime flags C B (dom (heap s)) s' \<and> (k \<le> MINBUCKETSIZE \<longrightarrow> nalloc s < nalloc s')"
proof -
  from assms(1) obtain w where w: "workspace fs n k s = Some w"
    by (auto simp: stage1_def split: bind_splits)
  note specW = workspace_alloc[OF w assms(2)]
  show ?thesis
  proof (cases w)
    case (Ret v s')
    with assms(1) w have "r = Ret v s'"
      by (auto simp: stage1_def split: bind_splits)
    with specW Ret show ?thesis by simp
  next
    case (Go x)
    obtain C B f0 s1 where x: "x = (C, B, f0, s1)" by (cases x)
    define flags where "flags = sort_flags fs n k f0"
    from specW Go x have w1: "ext s s1" "\<not> failed s s1" "wf_heap s1" "regime f0 C B (dom (heap s)) s1"
      and sm: "k \<le> MINBUCKETSIZE \<longrightarrow> nalloc s < nalloc s1"
      by (simp_all add: regime_def)
    from assms(1) w Go x obtain s2 j m b rs where
      sc: "stage1_scan T C B n k s1 = Some (s2, j, m, b)"
      and so: "stage1_sort T C B n k flags j m b s2 = Some rs"
      and r: "r = (case rs of Ret v s \<Rightarrow> Ret v s | Go (name, s) \<Rightarrow> Go (C, B, flags, m, name, s))"
      by (auto simp: stage1_def flags_def Let_def split: bind_splits flow.splits)
    note sh = shape_ext[OF stage1_scan_shape[OF sc]]
    from sh w1 have w2: "ext s s2" "\<not> failed s s2" "wf_heap s2" "regime flags C B (dom (heap s)) s2"
      using failed_trans[of s s1 s2] ext_trans[of s s1 s2]
      by (auto simp: regime_def flags_def owned_sort_flags sort_flags_bits)
    from sh sm have sm2: "k \<le> MINBUCKETSIZE \<longrightarrow> nalloc s < nalloc s2"
      by (auto simp: ext_def)
    note specS = stage1_sort_alloc[OF so w2(3)]
    show ?thesis
    proof (cases rs)
      case (Ret v s')
      with specS have a: "v = - 2" "ext s2 s'" "failed s2 s'" "wf_heap s'"
        "dom (heap s') = dom (heap s2) - owned flags C B" by simp_all
      have "dom (heap s') = dom (heap s)" using a(5) w2(4) by (auto simp: regime_def)
      moreover have "ext s s'" using w2(1) a(2) by (rule ext_trans)
      moreover have "failed s s'" using failed_trans[OF w2(1) a(2)] a(3) by simp
      moreover have "k \<le> MINBUCKETSIZE \<longrightarrow> nalloc s < nalloc s'"
        using sm2 a(2) by (auto simp: ext_def)
      ultimately show ?thesis using r Ret a by simp
    next
      case (Go y)
      obtain name s' where y: "y = (name, s')" by (cases y)
      from specS Go y have a: "ext s2 s'" "\<not> failed s2 s'" "wf_heap s'" "dom (heap s') = dom (heap s2)"
        by simp_all
      have "regime flags C B (dom (heap s)) s'" using a(4) w2(4) by (simp add: regime_def)
      moreover have "ext s s'" using w2(1) a(1) by (rule ext_trans)
      moreover have "\<not> failed s s'" using failed_trans[OF w2(1) a(1)] a(2) w2(2) by simp
      moreover have "k \<le> MINBUCKETSIZE \<longrightarrow> nalloc s < nalloc s'"
        using sm2 a(1) by (auto simp: ext_def)
      ultimately show ?thesis using r Go y a by simp
    qed
  qed
qed

lemma stage2_reduce_alloc:
  assumes "stage2_reduce C B fs n k m name flags s = Some (newfs, flags', s')"
  shows "ext s s' \<and> \<not> failed s s' \<and> (wf_heap s \<longrightarrow> wf_heap s')
     \<and> dom (heap s') = dom (heap s) - (if flags AND 4 \<noteq> 0 then blk C else {}) - (if flags AND 2 \<noteq> 0 then blk B else {})
     \<and> flags' AND 1 = flags AND 1 \<and> flags' AND 2 = flags AND 2 \<and> flags' AND 4 = flags AND 4"
proof -
  from assms obtain s1 s2 s3 j3 where
    f1: "(if flags AND 4 \<noteq> 0 then free C s else Some s) = Some s1"
    and f2: "(if flags AND 2 \<noteq> 0 then free B s1 else Some s1) = Some s2"
    and it: "iter (rev [m..m + drop_bit 1 n - 1]) (\<lambda>i (s, j). do {
        v \<leftarrow> load s (SAp 0) i;
        if v \<noteq> 0 then do { s \<leftarrow> store s (SAp (m + newfs)) j (v - 1); Some (s, j - 1) } else Some (s, j) })
        (s2, m - 1) = Some (s3, j3)"
    and s': "s' = s3"
    and fl: "flags' = flags \<or> flags' = flags OR 8"
    by (auto simp: stage2_reduce_def Let_def split: bind_splits if_splits)
  have "shape (fst (s3, j3)) = shape (fst (s2, m - 1))"
    by (rule iter_shape[OF it]) (auto split: bind_splits if_splits dest: store_shape)
  then have sh: "shape s3 = shape s2" by simp
  have 1: "ext s s1 \<and> \<not> failed s s1 \<and> (wf_heap s \<longrightarrow> wf_heap s1)
    \<and> dom (heap s1) = dom (heap s) - (if flags AND 4 \<noteq> 0 then blk C else {})"
    using f1 free_Some[of C s s1] wf_heap_free[of C s s1]
    by (auto simp: ext_refl failed_refl split: if_splits)
  have 2: "ext s1 s2 \<and> \<not> failed s1 s2 \<and> (wf_heap s1 \<longrightarrow> wf_heap s2)
    \<and> dom (heap s2) = dom (heap s1) - (if flags AND 2 \<noteq> 0 then blk B else {})"
    using f2 free_Some[of B s1 s2] wf_heap_free[of B s1 s2]
    by (auto simp: ext_refl failed_refl split: if_splits)
  note 3 = shape_ext[OF sh]
  have "ext s s2" "\<not> failed s s2" using 1 2 failed_trans[of s s1 s2] ext_trans[of s s1 s2] by auto
  then have "ext s s3" "\<not> failed s s3" using 3 failed_trans[of s s2 s3] ext_trans[of s s2 s3] by auto
  moreover have "flags' AND 1 = flags AND 1 \<and> flags' AND 2 = flags AND 2 \<and> flags' AND 4 = flags AND 4"
    using fl by (auto simp: word_ao_dist)
  ultimately show ?thesis using 1 2 3 s' by auto
qed

lemma and5: "(f::32 word) AND 5 = 0 \<longleftrightarrow> f AND 1 = 0 \<and> f AND 4 = 0"
proof -
  have "(5::32 word) = 1 OR 4" by simp
  then have "f AND 5 = (f AND 1) OR (f AND 4)" by (simp only: word_ao_dist2)
  then show ?thesis by (simp add: or_eq_0_iff)
qed

lemma stage2_realloc_alloc:
  assumes rest: "stage2_realloc C B k flags s2 = Some r"
    and wf2: "wf_heap s2"
    and reg: "flags AND 4 \<noteq> 0 \<longrightarrow> flags AND 1 = 0 \<and> flags AND 2 = 0"
    and d2: "dom (heap s2) = L \<union> (if flags AND 1 \<noteq> 0 then blk C else {})"
    and dis: "L \<inter> (if flags AND 1 \<noteq> 0 then blk C else {}) = {}"
  shows "case r of
      Ret v s' \<Rightarrow> v = - 2 \<and> ext s2 s' \<and> failed s2 s' \<and> wf_heap s' \<and> dom (heap s') = L
    | Go (C', B', s') \<Rightarrow> ext s2 s' \<and> \<not> failed s2 s' \<and> wf_heap s' \<and> regime flags C' B' L s'"
proof (cases "flags AND 4 \<noteq> 0")
  case four: True
  with reg have b: "flags AND 1 = 0" "flags AND 2 = 0" by simp_all
  obtain p s3 where m: "malloc k s2 = (p, s3)" by (cases "malloc k s2")
  note w = wf_heap_malloc[OF m wf2]
  show ?thesis
  proof (cases p)
    case None
    with rest four m have "r = Ret (- 2) s3" by (simp add: stage2_realloc_def)
    with malloc_None[OF m[unfolded None]] w d2 b show ?thesis by simp
  next
    case (Some q)
    with rest four m b have "r = Go (q, q, s3)" by (simp add: stage2_realloc_def)
    with malloc_Some[OF m[unfolded Some]] w d2 b four show ?thesis
      by (auto simp: regime_def owned_def and5)
  qed
next
  case nofour: False
  show ?thesis
  proof (cases "flags AND 2 \<noteq> 0")
    case False
    with rest nofour have "r = Go (C, B, s2)" by (simp add: stage2_realloc_def)
    with wf2 d2 dis nofour False show ?thesis
      by (auto simp: regime_def owned_def ext_refl failed_refl and5)
  next
    case two: True
    obtain p s3 where m: "malloc k s2 = (p, s3)" by (cases "malloc k s2")
    note w = wf_heap_malloc[OF m wf2]
    show ?thesis
    proof (cases p)
      case None
      note a = malloc_None[OF m[unfolded None]]
      from rest nofour two m None obtain s4 where
        f: "(if flags AND 1 \<noteq> 0 then free C s3 else Some s3) = Some s4" and r: "r = Ret (- 2) s4"
        by (auto simp: stage2_realloc_def split: bind_splits)
      have "ext s3 s4 \<and> \<not> failed s3 s4 \<and> wf_heap s4
          \<and> dom (heap s4) = dom (heap s3) - (if flags AND 1 \<noteq> 0 then blk C else {})"
        using f free_Some[of C s3 s4] wf_heap_free[of C s3 s4] w
        by (auto simp: ext_refl failed_refl split: if_splits)
      moreover from this a have "ext s2 s4" "failed s2 s4"
        using ext_trans[of s2 s3 s4] failed_trans[of s2 s3 s4] by auto
      ultimately show ?thesis using r a d2 dis by auto
    next
      case (Some q)
      with rest nofour two m have "r = Go (C, q, s3)" by (simp add: stage2_realloc_def)
      with malloc_Some[OF m[unfolded Some]] w d2 dis nofour two show ?thesis
        by (auto simp: regime_def owned_def and5 wf_heap_def)
    qed
  qed
qed

lemma stage2_expand_alloc:
  assumes "stage2_expand T C B n k m newfs flags s = Some r" and "wf_heap s"
    and "flags AND 4 \<noteq> 0 \<longrightarrow> flags AND 1 = 0 \<and> flags AND 2 = 0"
    and "dom (heap s) = L \<union> (if flags AND 1 \<noteq> 0 then blk C else {})"
    and "L \<inter> (if flags AND 1 \<noteq> 0 then blk C else {}) = {}"
  shows "case r of
      Ret v s' \<Rightarrow> v = - 2 \<and> ext s s' \<and> failed s s' \<and> wf_heap s' \<and> dom (heap s') = L
    | Go (C', B', s') \<Rightarrow> ext s s' \<and> \<not> failed s s' \<and> wf_heap s' \<and> regime flags C' B' L s'"
proof -
  from assms(1) obtain i0 c0 s1 s2 where
    lp: "lms_positions T (SAp (m + newfs)) i0 (m - 1) c0 s = Some s1"
    and it: "iter (up m) (\<lambda>i s. do {
        r \<leftarrow> load s (SAp 0) i;
        v \<leftarrow> load s (SAp (m + newfs)) r;
        store s (SAp 0) i v }) s1 = Some s2"
    and rest: "stage2_realloc C B k flags s2 = Some r"
    by (auto simp: stage2_expand_def Let_def split: bind_splits)
  have "shape s2 = shape s1"
    by (rule iter_shape0[OF it]) (auto split: bind_splits dest: store_shape)
  with lms_positions_shape[OF lp] have "shape s2 = shape s" by simp
  note sh = shape_acct[OF this]
  from sh assms(2) have wf2: "wf_heap s2" by (simp add: wf_heap_def)
  from sh assms(4) have d2: "dom (heap s2) = L \<union> (if flags AND 1 \<noteq> 0 then blk C else {})" by simp
  from stage2_realloc_alloc[OF rest wf2 assms(3) d2 assms(5)] sh show ?thesis
    by (auto simp: ext_def failed_def split: flow.splits)
qed

lemma stage3_alloc:
  assumes "stage3 T C B n k m flags s = Some (v, s')"
  shows "v = 0 \<and> ext s s' \<and> \<not> failed s s' \<and> (wf_heap s \<longrightarrow> wf_heap s')
     \<and> dom (heap s') = dom (heap s) - (if flags AND 5 \<noteq> 0 then blk C else {}) - (if flags AND 2 \<noteq> 0 then blk B else {})"
proof -
  from assms obtain s1 s2 s3 s4 where
    a: "(if flags AND 8 \<noteq> 0 then getCounts T C n k s else Some s) = Some s1"
    and b: "(if 1 < m then do {
            s \<leftarrow> getBuckets C B k True s1;
            p \<leftarrow> load s (SAp 0) (m - 1);
            c1 \<leftarrow> chr T p;
            (s, j) \<leftarrow> place_lms T B (m - 1) n p c1 s;
            (s, j) \<leftarrow> zero_down 0 j s;
            Some s }
          else Some s1) = Some s2"
    and c: "induceSA T C B n k s2 = Some s3"
    and f1: "(if flags AND 5 \<noteq> 0 then free C s3 else Some s3) = Some s4"
    and f2: "(if flags AND 2 \<noteq> 0 then free B s4 else Some s4) = Some s'"
    and v: "v = 0"
    unfolding stage3_def
    by (simp add: bind_eq_Some_conv) (elim exE conjE, blast)
  have "shape s1 = shape s" using a by (auto split: if_splits dest: getCounts_shape)
  moreover have "shape s2 = shape s1" using b
    by (auto split: if_splits bind_splits dest!: getBuckets_shape place_lms_shape zero_down_shape)
  ultimately have "shape s3 = shape s" using induceSA_shape[OF c] by simp
  note sh = shape_acct[OF this]
  have 1: "ext s3 s4 \<and> \<not> failed s3 s4 \<and> (wf_heap s3 \<longrightarrow> wf_heap s4)
    \<and> dom (heap s4) = dom (heap s3) - (if flags AND 5 \<noteq> 0 then blk C else {})"
    using f1 free_Some[of C s3 s4] wf_heap_free[of C s3 s4]
    by (auto simp: ext_refl failed_refl split: if_splits)
  have 2: "ext s4 s' \<and> \<not> failed s4 s' \<and> (wf_heap s4 \<longrightarrow> wf_heap s')
    \<and> dom (heap s') = dom (heap s4) - (if flags AND 2 \<noteq> 0 then blk B else {})"
    using f2 free_Some[of B s4 s'] wf_heap_free[of B s4 s']
    by (auto simp: ext_refl failed_refl split: if_splits)
  have "ext s3 s'" "\<not> failed s3 s'" using 1 2 failed_trans[of s3 s4 s'] ext_trans[of s3 s4 s'] by auto
  with sh 1 2 v show ?thesis
    by (auto simp: ext_def failed_def wf_heap_def)
qed

lemma computeSA_alloc:
  "computeSA T fs n k s = Some (v, s') \<Longrightarrow> wf_heap s \<Longrightarrow>
    (v = 0 \<or> v = - 2) \<and> (v = - 2 \<longleftrightarrow> failed s s') \<and> ext s s' \<and> wf_heap s' \<and> dom (heap s') = dom (heap s)
    \<and> (k \<le> MINBUCKETSIZE \<longrightarrow> nalloc s < nalloc s')"
proof (induction T fs n k s arbitrary: v s' rule: computeSA.induct)
  case (1 T fs n k s)
  from "1.prems"(1) obtain r where r: "stage1 T fs n k s = Some r"
    by (subst (asm) computeSA.simps) (auto split: bind_splits)
  note spec1 = stage1_alloc[OF r "1.prems"(2)]
  show ?case
  proof (cases r)
    case (Ret v0 s0)
    with "1.prems"(1) r have "v = v0" "s' = s0"
      by (subst (asm) computeSA.simps, simp)+
    with spec1 Ret show ?thesis by simp
  next
    case (Go x)
    obtain C B flags m name s1 where x: "x = (C, B, flags, m, name, s1)" by (cases x)
    note r' = r[unfolded Go x]
    from spec1 Go x have a1: "ext s s1" "\<not> failed s s1" "wf_heap s1" "regime flags C B (dom (heap s)) s1"
      and sm: "k \<le> MINBUCKETSIZE \<longrightarrow> nalloc s < nalloc s1"
      by simp_all
    have mono: "ext s1 t \<Longrightarrow> k \<le> MINBUCKETSIZE \<longrightarrow> nalloc s < nalloc t" for t
      using sm by (auto simp: ext_def)
    define L where "L = dom (heap s)"
    from a1(4) have reg: "dom (heap s1) = L \<union> owned flags C B" "L \<inter> owned flags C B = {}"
      "flags AND 4 \<noteq> 0 \<longrightarrow> flags AND 1 = 0 \<and> flags AND 2 = 0"
      "flags AND 1 \<noteq> 0 \<and> flags AND 2 \<noteq> 0 \<longrightarrow> blk C \<inter> blk B = {}"
      by (simp_all add: regime_def L_def)
    show ?thesis
    proof (cases "name < m")
      case False
      with "1.prems"(1) r' have "stage3 T C B n k m flags s1 = Some (v, s')"
        by (subst (asm) computeSA.simps) simp
      note a3 = stage3_alloc[OF this]
      have "dom (heap s') = L" using a3 reg by (auto simp: owned_def)
      moreover have "ext s s'" using a1(1) a3 by (blast intro: ext_trans)
      moreover have "\<not> failed s s'" using failed_trans[of s s1 s'] a1 a3 by blast
      moreover have "k \<le> MINBUCKETSIZE \<longrightarrow> nalloc s < nalloc s'" using mono a3 by blast
      ultimately show ?thesis using a3 a1 by (simp add: L_def)
    next
      case lt: True
      from "1.prems"(1) r' lt obtain newfs flags' s2 vr sr' rr where
        red: "stage2_reduce C B fs n k m name flags s1 = Some (newfs, flags', s2)"
        and rec: "computeSA (take (nat m) (drop (nat (m + newfs)) (sa s2))) newfs m name
                    (s2\<lparr>sa := take (nat (m + newfs)) (sa s2)\<rparr>) = Some (vr, sr')"
        and post: "(if vr \<noteq> 0 then do {
                      s \<leftarrow> (if flags' AND 1 \<noteq> 0 then free C (sr'\<lparr>sa := sa sr' @ drop (nat (m + newfs)) (sa s2)\<rparr>)
                            else Some (sr'\<lparr>sa := sa sr' @ drop (nat (m + newfs)) (sa s2)\<rparr>));
                      Some (Ret (- 2) s) }
                    else do {
                      r \<leftarrow> stage2_expand T C B n k m newfs flags' (sr'\<lparr>sa := sa sr' @ drop (nat (m + newfs)) (sa s2)\<rparr>);
                      case r of
                        Ret v s \<Rightarrow> Some (Ret v s)
                      | Go (C, B, s) \<Rightarrow> Some (Go (C, B, flags', s)) }) = Some rr"
        and fin: "(case rr of Ret v s \<Rightarrow> Some (v, s) | Go (C, B, flags, s) \<Rightarrow> stage3 T C B n k m flags s) = Some (v, s')"
        by (subst (asm) computeSA.simps) (auto simp: Let_def split: bind_splits)
      note a2 = stage2_reduce_alloc[OF red]
      define sr where "sr = s2\<lparr>sa := take (nat (m + newfs)) (sa s2)\<rparr>"
      define s3 where "s3 = sr'\<lparr>sa := sa sr' @ drop (nat (m + newfs)) (sa s2)\<rparr>"
      have wf2: "wf_heap s2" using a2 a1 by simp
      then have wfr: "wf_heap sr" by (simp add: wf_heap_def sr_def)
      note ih = "1.IH"[OF r' refl refl refl refl refl refl lt red refl refl refl rec wfr[unfolded sr_def], folded sr_def]
      have bits: "flags' AND 1 = flags AND 1" "flags' AND 2 = flags AND 2" "flags' AND 4 = flags AND 4"
        using a2 by simp_all
      have d2: "dom (heap s2) = L \<union> (if flags AND 1 \<noteq> 0 then blk C else {})"
        using a2 reg by (auto simp: owned_def and5)
      have dis: "L \<inter> (if flags AND 1 \<noteq> 0 then blk C else {}) = {}"
        using reg by (auto simp: owned_def and5)
      have e23: "ext s2 s3" and f23: "failed s2 s3 \<longleftrightarrow> vr = - 2" and wf3: "wf_heap s3"
        and d3: "dom (heap s3) = dom (heap s2)" and vr: "vr = 0 \<or> vr = - 2"
        using ih by (auto simp: ext_def failed_def wf_heap_def sr_def s3_def)
      have e13: "ext s1 s3" using a2 e23 by (blast intro: ext_trans)
      have e03: "ext s s3" using a1(1) e13 by (rule ext_trans)
      have f03: "failed s s3 \<longleftrightarrow> vr = - 2"
        using failed_trans[OF a1(1) e13] failed_trans[of s1 s2 s3] a2 e23 f23 a1(2) by blast
      show ?thesis
      proof (cases "vr = 0")
        case False
        with vr have vr2: "vr = - 2" by simp
        from post False obtain s4 where
          f: "(if flags' AND 1 \<noteq> 0 then free C s3 else Some s3) = Some s4" and rr: "rr = Ret (- 2) s4"
          unfolding s3_def by (auto split: bind_splits)
        with fin have v: "v = - 2" "s' = s4" by simp_all
        have 4: "ext s3 s4 \<and> \<not> failed s3 s4 \<and> wf_heap s4
          \<and> dom (heap s4) = dom (heap s3) - (if flags AND 1 \<noteq> 0 then blk C else {})"
          using f free_Some[of C s3 s4] wf_heap_free[of C s3 s4] wf3 bits
          by (auto simp: ext_refl failed_refl split: if_splits)
        have "ext s s4" using e03 4 by (blast intro: ext_trans)
        moreover have "failed s s4" using failed_trans[OF e03, of s4] 4 f03 vr2 by blast
        moreover have "dom (heap s4) = L" using 4 d3 d2 dis by auto
        moreover have "k \<le> MINBUCKETSIZE \<longrightarrow> nalloc s < nalloc s4"
          using mono[of s4] e13 4 by (blast intro: ext_trans)
        ultimately show ?thesis using v 4 by (simp add: L_def)
      next
        case True
        with post obtain re where
          ex: "stage2_expand T C B n k m newfs flags' s3 = Some re"
          and rr: "rr = (case re of Ret v s \<Rightarrow> Ret v s | Go (C, B, s) \<Rightarrow> Go (C, B, flags', s))"
          unfolding s3_def by (auto split: bind_splits flow.splits)
        have "flags' AND 4 \<noteq> 0 \<longrightarrow> flags' AND 1 = 0 \<and> flags' AND 2 = 0"
          using reg(3) bits by simp
        note a4 = stage2_expand_alloc[OF ex wf3 this, of L] 
        have pre: "dom (heap s3) = L \<union> (if flags' AND 1 \<noteq> 0 then blk C else {})"
          "L \<inter> (if flags' AND 1 \<noteq> 0 then blk C else {}) = {}"
          using d3 d2 dis bits by simp_all
        from True f03 have nf03: "\<not> failed s s3" by simp
        show ?thesis
        proof (cases re)
          case (Ret v4 s4)
          with a4[OF pre] have 4: "v4 = - 2" "ext s3 s4" "failed s3 s4" "wf_heap s4" "dom (heap s4) = L"
            by simp_all
          from rr Ret fin have v: "v = v4" "s' = s4" by simp_all
          have "ext s s4" using e03 4 by (blast intro: ext_trans)
          moreover have "failed s s4" using failed_trans[OF e03 4(2)] 4 by blast
          moreover have "k \<le> MINBUCKETSIZE \<longrightarrow> nalloc s < nalloc s4"
            using mono[of s4] e13 4 by (blast intro: ext_trans)
          ultimately show ?thesis using v 4 by (simp add: L_def)
        next
          case (Go y)
          obtain C' B' s4 where y: "y = (C', B', s4)" by (cases y)
          with a4[OF pre] Go have 4: "ext s3 s4" "\<not> failed s3 s4" "wf_heap s4" "regime flags' C' B' L s4"
            by simp_all
          from rr Go y fin have "stage3 T C' B' n k m flags' s4 = Some (v, s')" by simp
          note a5 = stage3_alloc[OF this]
          have e04: "ext s s4" using e03 4 by (blast intro: ext_trans)
          have nf04: "\<not> failed s s4" using failed_trans[OF e03 4(1)] 4 nf03 by blast
          have "ext s s'" using e04 a5 by (blast intro: ext_trans)
          moreover have "\<not> failed s s'" using failed_trans[OF e04, of s'] a5 nf04 by blast
          moreover have "dom (heap s') = L" using a5 4(4) by (auto simp: regime_def owned_def)
          moreover have "k \<le> MINBUCKETSIZE \<longrightarrow> nalloc s < nalloc s'"
            using mono[of s'] e13 4 a5 by (blast intro: ext_trans)
          ultimately show ?thesis using a5 4 by (simp add: L_def)
        qed
      qed
    qed
  qed
qed

section \<open>Loads, stores and the bucket tables\<close>

text \<open>
  What a load sees after a store, the rules for the counting loops, and the contents of \<^verbatim>\<open>C\<close>
  and \<^verbatim>\<open>B\<close> after \<^verbatim>\<open>getCounts\<close> and \<^verbatim>\<open>getBuckets\<close>.
\<close>

section \<open>Loads, stores and loops\<close>

lemma load_store:
  "store s p i v = Some s' \<Longrightarrow> load s' q j = (if cell q j = cell p i then Some v else load s q j)"
  by (cases p; cases q)
     (auto simp: store_def load_def wr_def rd_def split: option.splits if_splits)

lemma cell_inj [simp]: "cell p i = cell p j \<longleftrightarrow> i = j"
  by (cases p) auto

lemma cell_in_cells [simp]: "cell p i \<in> cells p len \<longleftrightarrow> 0 \<le> i \<and> i < len"
  by (cases p) (auto simp: cells_def)

lemma cell_SA_in_cells [simp]: "(None, x) \<in> cells (SAp 0) n \<longleftrightarrow> 0 \<le> x \<and> x < n"
  by (auto simp: cells_def)

lemma upto_iter_rule:
  assumes "iter [a..b] f x = Some y" and "I a x"
    and "\<And>i x y. a \<le> i \<Longrightarrow> i \<le> b \<Longrightarrow> I i x \<Longrightarrow> f i x = Some y \<Longrightarrow> I (i + 1) y"
  shows "I (max a (b + 1)) y"
  using assms
proof (induction "nat (b + 1 - a)" arbitrary: a x)
  case 0
  then have "[a..b] = []" by simp
  with 0 show ?case by (simp add: max_def)
next
  case (Suc d)
  then have ab: "a \<le> b" by simp
  then have e: "[a..b] = a # [a + 1..b]" by (simp add: upto_rec1)
  from Suc.prems(1) e obtain x' where a: "f a x = Some x'" and r: "iter [a + 1..b] f x' = Some y"
    by (auto split: bind_splits)
  have "I (a + 1) x'" using Suc.prems(3)[OF _ ab Suc.prems(2) a] by simp
  moreover have "d = nat (b + 1 - (a + 1))" using Suc.hyps(2) by simp
  ultimately have "I (max (a + 1) (b + 1)) y"
    using Suc.hyps(1)[of "a + 1" x'] r Suc.prems(3) by simp
  with ab show ?case by (simp add: max_def)
qed

lemma iter_up_rule:
  assumes "iter (up n) f x = Some y" and "I 0 x"
    and "\<And>i x y. 0 \<le> i \<Longrightarrow> i < n \<Longrightarrow> I i x \<Longrightarrow> f i x = Some y \<Longrightarrow> I (i + 1) y"
  shows "I (max 0 n) y"
  using upto_iter_rule[of 0 "n - 1" f x y I] assms by (simp add: up_def)

lemma rev_upto_iter_rule:
  assumes "iter (rev [a..b]) f x = Some y" and "I (b + 1) x"
    and "\<And>i x y. a \<le> i \<Longrightarrow> i \<le> b \<Longrightarrow> I (i + 1) x \<Longrightarrow> f i x = Some y \<Longrightarrow> I i y"
  shows "I (min a (b + 1)) y"
  using assms
proof (induction "nat (b + 1 - a)" arbitrary: b x)
  case 0
  then have "[a..b] = []" by simp
  with 0 show ?case by (simp add: min_def)
next
  case (Suc d)
  then have ab: "a \<le> b" by simp
  then have e: "rev [a..b] = b # rev [a..b - 1]" by (simp add: upto_rec2)
  from Suc.prems(1) e obtain x' where a: "f b x = Some x'" and r: "iter (rev [a..b - 1]) f x' = Some y"
    by (auto split: bind_splits)
  have "I b x'" using Suc.prems(3)[OF ab _ Suc.prems(2) a] by simp
  moreover have "d = nat (b - 1 + 1 - a)" using Suc.hyps(2) by simp
  ultimately have "I (min a (b - 1 + 1)) y"
    using Suc.hyps(1)[of "b - 1" x'] r Suc.prems(3) by simp
  with ab show ?case by (simp add: min_def)
qed

lemma iter_down_rule:
  assumes "iter (down n) f x = Some y" and "I n x" and "0 \<le> n"
    and "\<And>i x y. 0 \<le> i \<Longrightarrow> i < n \<Longrightarrow> I (i + 1) x \<Longrightarrow> f i x = Some y \<Longrightarrow> I i y"
  shows "I 0 y"
  using rev_upto_iter_rule[of 0 "n - 1" f x y I] assms by (simp add: down_def min_def)

section \<open>Counting and bucketing\<close>

lemma frame_refl [simp]: "frame s s X"
  by (simp add: frame_def)

lemma frame_trans: "frame s s' X \<Longrightarrow> frame s' s'' Y \<Longrightarrow> frame s s'' (X \<union> Y)"
  by (auto simp: frame_def)

lemma frame_mono: "frame s s' X \<Longrightarrow> X \<subseteq> Y \<Longrightarrow> frame s s' Y"
  by (auto simp: frame_def)

lemma frame_store: "store s p i v = Some s' \<Longrightarrow> frame s s' {cell p i}"
  by (auto simp: frame_def load_store)

lemma frame_store_in: "store s p i v = Some s' \<Longrightarrow> cell p i \<in> X \<Longrightarrow> frame s s' X"
  by (auto simp: frame_def load_store)

lemma chr_Some: "chr T i = Some c \<longleftrightarrow> 0 \<le> i \<and> i < int (length T) \<and> c = T ! nat i"
  by (auto simp: chr_def rd_def)

lemma occ_take_Suc:
  assumes "0 \<le> i" "i < int (length T)"
  shows "occ (take (nat (i + 1)) T) c = occ (take (nat i) T) c + (if T ! nat i = c then 1 else 0)"
proof -
  have "nat (i + 1) = Suc (nat i)" "nat i < length T" using assms by auto
  then show ?thesis by (simp add: occ_def take_Suc_conv_app_nth)
qed

lemma getCounts_spec:
  assumes run: "getCounts T C n k s = Some s'"
    and len: "int (length T) = n" and rng: "\<forall>x \<in> set T. 0 \<le> x \<and> x < k"
  shows "(\<forall>c. 0 \<le> c \<and> c < k \<longrightarrow> load s' C c = Some (occ T c)) \<and> frame s s' (cells C k)"
proof -
  from run obtain s1 where
    l1: "iter (up k) (\<lambda>i s. store s C i 0) s = Some s1"
    and l2: "iter (up n) (\<lambda>i s. do { c \<leftarrow> chr T i; v \<leftarrow> load s C c; store s C c (v + 1) }) s1 = Some s'"
    by (auto simp: getCounts_def split: bind_splits)
  define I1 where "I1 i t \<longleftrightarrow> (\<forall>c. 0 \<le> c \<and> c < i \<longrightarrow> load t C c = Some 0) \<and> frame s t (cells C k)" for i t
  have "I1 (max 0 k) s1"
  proof (rule iter_up_rule[OF l1, of I1])
    show "I1 0 s" by (auto simp: I1_def)
  next
    fix i x y assume i: "0 \<le> i" "i < k" and inv: "I1 i x" and st: "store x C i 0 = Some y"
    have "frame x y (cells C k)" using frame_store_in[OF st] i by simp
    with inv have "frame s y (cells C k)" unfolding I1_def using frame_trans by fastforce
    moreover have "load y C c = Some 0" if "0 \<le> c" "c < i + 1" for c
      using that inv load_store[OF st, of C c] by (cases "c = i") (auto simp: I1_def)
    ultimately show "I1 (i + 1) y" by (simp add: I1_def)
  qed
  then have z: "\<forall>c. 0 \<le> c \<and> c < k \<longrightarrow> load s1 C c = Some 0" and f1: "frame s s1 (cells C k)"
    by (auto simp: I1_def)
  define I2 where "I2 i t \<longleftrightarrow> (\<forall>c. 0 \<le> c \<and> c < k \<longrightarrow> load t C c = Some (occ (take (nat i) T) c)) \<and> frame s t (cells C k)" for i t
  have "I2 (max 0 n) s'"
  proof (rule iter_up_rule[OF l2, of I2])
    show "I2 0 s1" using z f1 by (auto simp: I2_def occ_def)
  next
    fix i x y assume i: "0 \<le> i" "i < n" and inv: "I2 i x"
      and st: "do { c \<leftarrow> chr T i; v \<leftarrow> load x C c; store x C c (v + 1) } = Some y"
    from st obtain c v where c: "chr T i = Some c" and v: "load x C c = Some v" and w: "store x C c (v + 1) = Some y"
      by (auto split: bind_splits)
    from c have cT: "c = T ! nat i" "nat i < length T" by (auto simp: chr_Some)
    then have cr: "0 \<le> c" "c < k" using rng by auto
    have vv: "v = occ (take (nat i) T) c" using inv v cr by (simp add: I2_def)
    have "frame x y (cells C k)" using frame_store_in[OF w] cr by simp
    with inv have "frame s y (cells C k)" unfolding I2_def using frame_trans by fastforce
    moreover have "load y C c' = Some (occ (take (nat (i + 1)) T) c')" if "0 \<le> c'" "c' < k" for c'
      using that inv load_store[OF w, of C c'] vv cT occ_take_Suc[of i T c'] i len
      by (cases "c' = c") (auto simp: I2_def)
    ultimately show "I2 (i + 1) y" by (simp add: I2_def)
  qed
  moreover have "take (nat (max 0 n)) T = T" using len by simp
  ultimately show ?thesis by (simp add: I2_def)
qed

lemma bucket_start_0: "\<forall>x \<in> set T. 0 \<le> x \<Longrightarrow> bucket_start T 0 = 0"
  by (auto simp: bucket_start_def filter_empty_conv)

lemma bucket_end_eq: "bucket_end T c = bucket_start T c + occ T c"
proof -
  have "length (filter (\<lambda>x. x \<le> c) T) = length (filter (\<lambda>x. x < c) T) + length (filter (\<lambda>x. x = c) T)"
    by (induction T) auto
  then show ?thesis by (simp add: bucket_end_def bucket_start_def occ_def)
qed

lemma bucket_start_Suc: "bucket_start T (c + 1) = bucket_end T c"
proof -
  have "(\<lambda>x. x < c + 1) = (\<lambda>x. x \<le> c)" by auto
  then show ?thesis by (simp add: bucket_end_def bucket_start_def)
qed

lemma disjoint_cells:
  "cells C k \<inter> cells B k = {} \<Longrightarrow> 0 \<le> c \<Longrightarrow> c < k \<Longrightarrow> 0 \<le> i \<Longrightarrow> i < k \<Longrightarrow> cell C c \<noteq> cell B i"
  by (metis cell_in_cells disjoint_iff)

lemma getBuckets_spec:
  assumes run: "getBuckets C B k e s = Some s'"
    and cnt: "\<forall>c. 0 \<le> c \<and> c < k \<longrightarrow> load s C c = Some (occ T c)"
    and al: "C = B \<or> cells C k \<inter> cells B k = {}"
    and rng: "\<forall>x \<in> set T. 0 \<le> x"
  shows "(\<forall>c. 0 \<le> c \<and> c < k \<longrightarrow> load s' B c = Some (if e then bucket_end T c else bucket_start T c))
       \<and> frame s s' (cells B k)"
proof -
  define body where "body = (\<lambda>(i::int) (s, sum).
     if e then do {
             c \<leftarrow> load s C i;
             s' \<leftarrow> store s B i (sum + c);
             Some (s', sum + c) }
     else do {
             c \<leftarrow> load s C i;
             c' \<leftarrow> load s C i;
             s' \<leftarrow> store s B i (sum + c - c');
             Some (s', sum + c) })"
  from run obtain sum' where it: "iter (up k) body (s, 0) = Some (s', sum')"
    by (cases e) (auto simp: getBuckets_def body_def split: if_splits)
  define bk where "bk c = (if e then bucket_end T c else bucket_start T c)" for c
  define I where "I i x \<longleftrightarrow> snd x = bucket_start T i
      \<and> (\<forall>c. 0 \<le> c \<and> c < i \<longrightarrow> load (fst x) B c = Some (bk c))
      \<and> (\<forall>c. i \<le> c \<and> c < k \<longrightarrow> load (fst x) C c = Some (occ T c))
      \<and> frame s (fst x) (cells B k)" for i x
  have "I (max 0 k) (s', sum')"
  proof (rule iter_up_rule[OF it, of I])
    show "I 0 (s, 0)" using cnt rng by (auto simp: I_def bucket_start_0)
  next
    fix i x y assume i: "0 \<le> i" "i < k" and inv: "I i x" and st: "body i x = Some y"
    obtain t sum where x: "x = (t, sum)" by (cases x)
    from inv x have sum: "sum = bucket_start T i"
      and lo: "\<forall>c. 0 \<le> c \<and> c < i \<longrightarrow> load t B c = Some (bk c)"
      and hi: "\<forall>c. i \<le> c \<and> c < k \<longrightarrow> load t C c = Some (occ T c)"
      and fr: "frame s t (cells B k)"
      by (simp_all add: I_def)
    have ci: "load t C i = Some (occ T i)" using hi i by simp
    from st x ci obtain t' where w: "store t B i (bk i) = Some t'" and y: "y = (t', sum + occ T i)"
      by (cases e) (auto simp: body_def bk_def sum bucket_end_eq split: bind_splits)
    have "frame t t' (cells B k)" using frame_store_in[OF w] i by simp
    with fr have "frame s t' (cells B k)" using frame_trans by fastforce
    moreover have "load t' B c = Some (bk c)" if "0 \<le> c" "c < i + 1" for c
      using that lo load_store[OF w, of B c] by (cases "c = i") auto
    moreover have "load t' C c = Some (occ T c)" if "i + 1 \<le> c" "c < k" for c
    proof -
      have "cell C c \<noteq> cell B i"
        using al that i disjoint_cells[of C k B c i] by auto
      then show ?thesis using load_store[OF w, of C c] hi that by simp
    qed
    moreover have "sum + occ T i = bucket_start T (i + 1)"
      by (simp add: sum bucket_start_Suc bucket_end_eq)
    ultimately show "I (i + 1) y" by (simp add: I_def y)
  qed
  then show ?thesis by (auto simp: I_def bk_def)
qed

section \<open>The scenarios of the specification\<close>

lemma scenario_banana_fs0:
  "sa_prefix 6 (computeSA [1, 0, 2, 0, 2, 0] 0 6 3 (fresh_mem [a0, a1, a2, a3, a4, a5] J)) = Some (0, [5, 3, 1, 0, 4, 2])"
  by code_simp

lemma scenario_banana_fs6:
  "sa_prefix 6 (computeSA [1, 0, 2, 0, 2, 0] 6 6 3 (fresh_mem [a0, a1, a2, a3, a4, a5, a6, a7, a8, a9, a10, a11] J)) = Some (0, [5, 3, 1, 0, 4, 2])"
  by code_simp

lemma scenario_banana_fs12:
  "sa_prefix 6 (computeSA [1, 0, 2, 0, 2, 0] 12 6 3 (fresh_mem [a0, a1, a2, a3, a4, a5, a6, a7, a8, a9, a10, a11, a12, a13, a14, a15, a16, a17] J)) = Some (0, [5, 3, 1, 0, 4, 2])"
  by code_simp

lemma scenario_equal_fs0:
  "sa_prefix 5 (computeSA [0, 0, 0, 0, 0] 0 5 1 (fresh_mem [a0, a1, a2, a3, a4] J)) = Some (0, [4, 3, 2, 1, 0])"
  by code_simp

lemma scenario_equal_fs5:
  "sa_prefix 5 (computeSA [0, 0, 0, 0, 0] 5 5 1 (fresh_mem [a0, a1, a2, a3, a4, a5, a6, a7, a8, a9] J)) = Some (0, [4, 3, 2, 1, 0])"
  by code_simp

lemma scenario_equal_fs10:
  "sa_prefix 5 (computeSA [0, 0, 0, 0, 0] 10 5 1 (fresh_mem [a0, a1, a2, a3, a4, a5, a6, a7, a8, a9, a10, a11, a12, a13, a14] J)) = Some (0, [4, 3, 2, 1, 0])"
  by code_simp

lemma scenario_increasing_fs0:
  "sa_prefix 8 (computeSA [0, 1, 2, 3, 4, 5, 6, 7] 0 8 8 (fresh_mem [a0, a1, a2, a3, a4, a5, a6, a7] J)) = Some (0, [0, 1, 2, 3, 4, 5, 6, 7])"
  by code_simp

lemma scenario_increasing_fs8:
  "sa_prefix 8 (computeSA [0, 1, 2, 3, 4, 5, 6, 7] 8 8 8 (fresh_mem [a0, a1, a2, a3, a4, a5, a6, a7, a8, a9, a10, a11, a12, a13, a14, a15] J)) = Some (0, [0, 1, 2, 3, 4, 5, 6, 7])"
  by code_simp

lemma scenario_increasing_fs16:
  "sa_prefix 8 (computeSA [0, 1, 2, 3, 4, 5, 6, 7] 16 8 8 (fresh_mem [a0, a1, a2, a3, a4, a5, a6, a7, a8, a9, a10, a11, a12, a13, a14, a15, a16, a17, a18, a19, a20, a21, a22, a23] J)) = Some (0, [0, 1, 2, 3, 4, 5, 6, 7])"
  by code_simp

text \<open>
  Claim C3.  On the inputs of rows 3, 5 and 6 of the scenario table, \<^verbatim>\<open>computeSA\<close> returns 0
  and leaves the listed array in \<^verbatim>\<open>SA[0 .. n)\<close>: \<open>[1,0,2,0,2,0]\<close> with \<open>k = 3\<close> gives
  \<open>[5,3,1,0,4,2]\<close>, \<open>[0,0,0,0,0]\<close> with \<open>k = 1\<close> gives \<open>[4,3,2,1,0]\<close>, and
  \<open>[0,1,2,3,4,5,6,7]\<close> with \<open>k = 8\<close> gives \<open>[0,1,2,3,4,5,6,7]\<close>.  The table fixes neither the
  slack nor the initial memory: the theorem covers the slacks \<open>fs = 0\<close>, \<open>fs = n\<close> and
  \<open>fs = 2n\<close>, every initial content of \<^verbatim>\<open>SA\<close> and of the allocated blocks, and allocations
  that succeed.
\<close>

theorem scenarios_table:
  "sa_prefix 6 (computeSA [1, 0, 2, 0, 2, 0] 0 6 3 (fresh_mem [a0, a1, a2, a3, a4, a5] J)) = Some (0, [5, 3, 1, 0, 4, 2])
   \<and> sa_prefix 6 (computeSA [1, 0, 2, 0, 2, 0] 6 6 3 (fresh_mem [a0, a1, a2, a3, a4, a5, a6, a7, a8, a9, a10, a11] J)) = Some (0, [5, 3, 1, 0, 4, 2])
   \<and> sa_prefix 6 (computeSA [1, 0, 2, 0, 2, 0] 12 6 3 (fresh_mem [a0, a1, a2, a3, a4, a5, a6, a7, a8, a9, a10, a11, a12, a13, a14, a15, a16, a17] J)) = Some (0, [5, 3, 1, 0, 4, 2])
   \<and> sa_prefix 5 (computeSA [0, 0, 0, 0, 0] 0 5 1 (fresh_mem [a0, a1, a2, a3, a4] J)) = Some (0, [4, 3, 2, 1, 0])
   \<and> sa_prefix 5 (computeSA [0, 0, 0, 0, 0] 5 5 1 (fresh_mem [a0, a1, a2, a3, a4, a5, a6, a7, a8, a9] J)) = Some (0, [4, 3, 2, 1, 0])
   \<and> sa_prefix 5 (computeSA [0, 0, 0, 0, 0] 10 5 1 (fresh_mem [a0, a1, a2, a3, a4, a5, a6, a7, a8, a9, a10, a11, a12, a13, a14] J)) = Some (0, [4, 3, 2, 1, 0])
   \<and> sa_prefix 8 (computeSA [0, 1, 2, 3, 4, 5, 6, 7] 0 8 8 (fresh_mem [a0, a1, a2, a3, a4, a5, a6, a7] J)) = Some (0, [0, 1, 2, 3, 4, 5, 6, 7])
   \<and> sa_prefix 8 (computeSA [0, 1, 2, 3, 4, 5, 6, 7] 8 8 8 (fresh_mem [a0, a1, a2, a3, a4, a5, a6, a7, a8, a9, a10, a11, a12, a13, a14, a15] J)) = Some (0, [0, 1, 2, 3, 4, 5, 6, 7])
   \<and> sa_prefix 8 (computeSA [0, 1, 2, 3, 4, 5, 6, 7] 16 8 8 (fresh_mem [a0, a1, a2, a3, a4, a5, a6, a7, a8, a9, a10, a11, a12, a13, a14, a15, a16, a17, a18, a19, a20, a21, a22, a23] J)) = Some (0, [0, 1, 2, 3, 4, 5, 6, 7])"
  by (intro conjI scenario_banana_fs0 scenario_banana_fs6 scenario_banana_fs12 scenario_equal_fs0 scenario_equal_fs5 scenario_equal_fs10 scenario_increasing_fs0 scenario_increasing_fs8 scenario_increasing_fs16)

section \<open>Return status and release of the heap buffers\<close>




section \<open>Heap allocations for small alphabets\<close>

text \<open>
  Claim C8 (as stated: with \<open>k \<le> 256\<close> and \<open>fs = 2n\<close> a successful run of \<^verbatim>\<open>computeSA\<close> performs
  no heap allocation) fails: on the text \<open>[1,0,2,0,2,0]\<close> with \<open>n = 6\<close>, \<open>k = 3\<close> and
  \<open>fs = 12\<close> the call returns 0 after one call of \<^verbatim>\<open>malloc\<close>, the one for \<^verbatim>\<open>C\<close>.
\<close>

theorem no_allocation_counterexample:
  "status_allocs (failing_mem (replicate 18 0) 1)
     (computeSA [1, 0, 2, 0, 2, 0] 12 6 3 (failing_mem (replicate 18 0) 1)) = Some (0, 1)"
  by code_simp

text \<open>
  Claim C8, amended.  For every input with \<open>k \<le> 256\<close>, whatever the slack \<open>fs\<close> (so for
  \<open>fs = 2n\<close> too), a call of \<^verbatim>\<open>computeSA\<close> that returns has made at least one call of
  \<^verbatim>\<open>malloc\<close>: the array \<^verbatim>\<open>C\<close> of a small alphabet is always taken from the heap.
\<close>

theorem small_alphabet_allocates:
  assumes "computeSA T fs n k s = Some (v, s')" and "wf_heap s" and "k \<le> 256"
  shows "nalloc s < nalloc s'"
  using computeSA_alloc[OF assms(1,2)] assms(3) by (simp add: MINBUCKETSIZE_def)

theorem small_alphabet_allocates_witness:
  "\<exists>v s'. computeSA [1, 0, 2, 0, 2, 0] 12 6 3 (failing_mem (replicate 18 0) 1) = Some (v, s')
      \<and> wf_heap (failing_mem (replicate 18 0) 1) \<and> (3::int) \<le> 256
      \<and> nalloc (failing_mem (replicate 18 0) 1) < nalloc s'"
proof -
  have "status_allocs (failing_mem (replicate 18 0) 1)
     (computeSA [1, 0, 2, 0, 2, 0] 12 6 3 (failing_mem (replicate 18 0) 1)) = Some (0, 1)"
    by code_simp
  then obtain v s' where
    r: "computeSA [1, 0, 2, 0, 2, 0] 12 6 3 (failing_mem (replicate 18 0) 1) = Some (v, s')"
    by (auto simp: status_allocs_def)
  have wf: "wf_heap (failing_mem (replicate 18 0) 1)"
    by (simp add: wf_heap_def failing_mem_def)
  from small_alphabet_allocates[OF r wf] r wf show ?thesis by simp
qed

section \<open>The buffers of the two-pass sort\<close>

lemma workspace_cases:
  assumes "workspace fs n k s = Some (Go (C, B, f0, s1))"
  shows "(f0 = 1 \<and> k \<le> 256 \<and> k \<le> fs \<and> C = Hp (nalloc s) \<and> B = SAp (n + fs - k) \<and> nalloc s1 = Suc (nalloc s))
       \<or> (f0 = 3 \<and> k \<le> 256 \<and> fs < k \<and> C = Hp (nalloc s) \<and> B = Hp (Suc (nalloc s)) \<and> nalloc s1 = Suc (Suc (nalloc s)))
       \<or> (f0 = 0 \<and> 256 < k \<and> k \<le> fs - k \<and> C = SAp (n + fs - k) \<and> B = SAp (n + fs - k - k) \<and> s1 = s)
       \<or> (f0 = 2 \<and> 256 < k \<and> k \<le> fs \<and> fs - k < k \<and> k \<le> 1024 \<and> C = SAp (n + fs - k) \<and> B = Hp (nalloc s) \<and> nalloc s1 = Suc (nalloc s))
       \<or> (f0 = 8 \<and> 1024 < k \<and> k \<le> fs \<and> fs - k < k \<and> C = SAp (n + fs - k) \<and> B = C \<and> s1 = s)
       \<or> (f0 = 12 \<and> 256 < k \<and> fs < k \<and> C = Hp (nalloc s) \<and> B = C \<and> nalloc s1 = Suc (nalloc s))"
  using assms
  unfolding workspace_def malloc_def free_def padd_def Let_def MINBUCKETSIZE_def
  by (auto split: option.splits if_splits bind_splits)





section \<open>The slack of the recursive call\<close>








section \<open>The number of LMS positions\<close>

lemma s_type_last: "length T \<le> i + 1 \<Longrightarrow> s_type e T i = e"
  by (subst s_type.simps) simp

lemma s_type_step:
  "i + 1 < length T \<Longrightarrow> s_type e T i \<longleftrightarrow> T ! i < T ! (i + 1) \<or> (T ! i = T ! (i + 1) \<and> s_type e T (i + 1))"
  by (subst s_type.simps) simp

lemma isS_last: "i + 1 = int (length T) \<Longrightarrow> \<not> isS T i"
  unfolding isS_def by (subst s_type_last) auto

lemma isS_step:
  assumes "0 \<le> i" "i + 1 < int (length T)"
  shows "isS T i \<longleftrightarrow> T ! nat i < T ! nat (i + 1) \<or> (T ! nat i = T ! nat (i + 1) \<and> isS T (i + 1))"
proof -
  have "nat i + 1 < length T" "nat (i + 1) = nat i + 1" using assms by auto
  then show ?thesis unfolding isS_def by (simp add: s_type_step)
qed

lemma skip_ge_spec:
  assumes "skip_ge T i c0 = Some (i', c0', c1')"
    and "0 \<le> i" "i < int (length T)" "c0 = T ! nat i" "\<not> isS T i"
  shows "- 1 \<le> i' \<and> i' < i \<and> (\<forall>x. i' < x \<and> x \<le> i \<longrightarrow> \<not> isS T x)
       \<and> (0 \<le> i' \<longrightarrow> isS T i' \<and> c0' = T ! nat i' \<and> c1' = T ! nat (i' + 1))"
  using assms
proof (induction T i c0 rule: skip_ge.induct)
  case (1 T i c0)
  show ?case
  proof (cases "0 \<le> i - 1")
    case False
    with "1.prems" show ?thesis
      by (subst (asm) skip_ge.simps) (auto simp: dest: order_antisym)
  next
    case True
    from "1.prems"(1) True obtain c where c: "chr T (i - 1) = Some c"
      by (subst (asm) skip_ge.simps) (auto split: bind_splits)
    then have cv: "c = T ! nat (i - 1)" by (simp add: chr_Some)
    have step: "isS T (i - 1) \<longleftrightarrow> c < c0 \<or> (c = c0 \<and> isS T i)"
      using isS_step[of "i - 1" T] True "1.prems" cv by simp
    show ?thesis
    proof (cases "c \<ge> c0")
      case ge: True
      with "1.prems"(1) True c have r: "skip_ge T (i - 1) c = Some (i', c0', c1')"
        by (subst (asm) skip_ge.simps) simp
      have nS: "\<not> isS T (i - 1)" using step ge "1.prems"(5) by auto
      from "1.IH"[OF True c ge r True _ cv nS] "1.prems"
      have ih: "- 1 \<le> i' \<and> i' < i - 1 \<and> (\<forall>x. i' < x \<and> x \<le> i - 1 \<longrightarrow> \<not> isS T x)
         \<and> (0 \<le> i' \<longrightarrow> isS T i' \<and> c0' = T ! nat i' \<and> c1' = T ! nat (i' + 1))"
        by simp
      have "\<not> isS T x" if "i' < x" "x \<le> i" for x
        using that ih "1.prems"(5) by (cases "x = i") auto
      with ih show ?thesis by auto
    next
      case lt: False
      with "1.prems"(1) True c have r: "i' = i - 1" "c0' = c" "c1' = c0"
        by (subst (asm) skip_ge.simps, simp)+
      have "\<forall>x. i' < x \<and> x \<le> i \<longrightarrow> \<not> isS T x"
      proof (intro allI impI)
        fix x assume "i' < x \<and> x \<le> i"
        with r have "x = i" by simp
        with "1.prems"(5) show "\<not> isS T x" by simp
      qed
      moreover have "isS T i'" "c0' = T ! nat i'" "c1' = T ! nat (i' + 1)"
        using r lt step cv "1.prems"(4) by auto
      ultimately show ?thesis using r True by simp
    qed
  qed
qed

lemma skip_le_spec:
  assumes "skip_le T i c0 = Some (i', c0', c1')"
    and "0 \<le> i" "i < int (length T)" "c0 = T ! nat i" "isS T i"
  shows "- 1 \<le> i' \<and> i' < i \<and> (\<forall>x. i' < x \<and> x \<le> i \<longrightarrow> isS T x)
       \<and> (0 \<le> i' \<longrightarrow> \<not> isS T i' \<and> c0' = T ! nat i' \<and> c1' = T ! nat (i' + 1))"
  using assms
proof (induction T i c0 rule: skip_le.induct)
  case (1 T i c0)
  show ?case
  proof (cases "0 \<le> i - 1")
    case False
    with "1.prems" show ?thesis
      by (subst (asm) skip_le.simps) (auto simp: dest: order_antisym)
  next
    case True
    from "1.prems"(1) True obtain c where c: "chr T (i - 1) = Some c"
      by (subst (asm) skip_le.simps) (auto split: bind_splits)
    then have cv: "c = T ! nat (i - 1)" by (simp add: chr_Some)
    have step: "isS T (i - 1) \<longleftrightarrow> c < c0 \<or> (c = c0 \<and> isS T i)"
      using isS_step[of "i - 1" T] True "1.prems" cv by simp
    show ?thesis
    proof (cases "c \<le> c0")
      case le: True
      with "1.prems"(1) True c have r: "skip_le T (i - 1) c = Some (i', c0', c1')"
        by (subst (asm) skip_le.simps) simp
      have S: "isS T (i - 1)" using step le "1.prems"(5) by auto
      from "1.IH"[OF True c le r True _ cv S] "1.prems"
      have ih: "- 1 \<le> i' \<and> i' < i - 1 \<and> (\<forall>x. i' < x \<and> x \<le> i - 1 \<longrightarrow> isS T x)
         \<and> (0 \<le> i' \<longrightarrow> \<not> isS T i' \<and> c0' = T ! nat i' \<and> c1' = T ! nat (i' + 1))"
        by simp
      have "isS T x" if "i' < x" "x \<le> i" for x
        using that ih "1.prems"(5) by (cases "x = i") auto
      with ih show ?thesis by auto
    next
      case gt: False
      with "1.prems"(1) True c have r: "i' = i - 1" "c0' = c" "c1' = c0"
        by (subst (asm) skip_le.simps, simp)+
      have "\<forall>x. i' < x \<and> x \<le> i \<longrightarrow> isS T x"
      proof (intro allI impI)
        fix x assume "i' < x \<and> x \<le> i"
        with r have "x = i" by simp
        with "1.prems"(5) show "isS T x" by simp
      qed
      moreover have "\<not> isS T i'" "c0' = T ! nat i'" "c1' = T ! nat (i' + 1)"
        using r gt step cv "1.prems"(4) by auto
      ultimately show ?thesis using r True by simp
    qed
  qed
qed

lemma lms_isS: "0 < p \<Longrightarrow> p < int (length T) \<Longrightarrow> lms False T (nat p) \<longleftrightarrow> isS T p \<and> \<not> isS T (p - 1)"
  by (auto simp: lms_def isS_def nat_diff_distrib)

lemma lms_upto_Suc:
  "0 \<le> p \<Longrightarrow> lms_upto T p = lms_upto T (p - 1) + (if lms False T (nat p) then 1 else 0)"
proof -
  assume "0 \<le> p"
  then have "nat (p + 1) = Suc (nat p)" "nat (p - 1 + 1) = nat p" by auto
  then show ?thesis by (simp add: lms_upto_def)
qed

lemma lms_upto_none:
  assumes "i' \<le> i" "- 1 \<le> i'" "\<forall>p. i' < p \<and> p \<le> i \<longrightarrow> \<not> lms False T (nat p)"
  shows "lms_upto T i = lms_upto T i'"
proof -
  have "- 1 \<le> i' \<Longrightarrow> i' \<le> i' + int d \<Longrightarrow> (\<forall>p. i' < p \<and> p \<le> i' + int d \<longrightarrow> \<not> lms False T (nat p))
      \<Longrightarrow> lms_upto T (i' + int d) = lms_upto T i'" for d
  proof (induction d)
    case 0
    then show ?case by simp
  next
    case (Suc d)
    have a: "lms_upto T (i' + int (Suc d)) = lms_upto T (i' + int d) + (if lms False T (nat (i' + int (Suc d))) then 1 else 0)"
      using lms_upto_Suc[of "i' + int (Suc d)" T] Suc.prems(1) by (simp add: algebra_simps)
    have b: "\<not> lms False T (nat (i' + int (Suc d)))" using Suc.prems by simp
    have "lms_upto T (i' + int d) = lms_upto T i'" using Suc by simp
    with a b show ?case by simp
  qed
  from this[of "nat (i - i')"] assms show ?thesis by simp
qed

lemma lms_scan_exact:
  assumes "lms_scan T B i j m c0 b s = Some (s', j', m', b')"
    and "- 1 \<le> i" "i < int (length T)"
    and "0 \<le> i \<longrightarrow> c0 = T ! nat i \<and> isS T i"
  shows "m' = m + int (lms_upto T i)"
  using assms
proof (induction T B i j m c0 b s rule: lms_scan.induct)
  case (1 T B i j m c0 b s)
  show ?case
  proof (cases "0 \<le> i")
    case False
    with "1.prems" have "i = - 1" by simp
    moreover from "1.prems"(1) False have "m' = m"
      by (subst (asm) lms_scan.simps) simp
    ultimately show ?thesis by (simp add: lms_upto_def)
  next
    case True
    from "1.prems"(1) True obtain i1 c01 c11 where
      le: "skip_le T i c0 = Some (i1, c01, c11)"
      by (subst (asm) lms_scan.simps) (auto split: bind_splits)
    from skip_le_spec[OF le True "1.prems"(3)] "1.prems"(4) True
    have sl: "- 1 \<le> i1" "i1 < i" "\<forall>x. i1 < x \<and> x \<le> i \<longrightarrow> isS T x"
      "0 \<le> i1 \<longrightarrow> \<not> isS T i1 \<and> c01 = T ! nat i1 \<and> c11 = T ! nat (i1 + 1)"
      by simp_all
    have no_upper: "\<not> lms False T (nat p)" if "i1 + 1 < p" "p \<le> i" for p
    proof -
      have "isS T (p - 1)" using sl(3) that by simp
      moreover have "0 < p" "p < int (length T)" using that sl(1) "1.prems"(3) by simp_all
      ultimately show ?thesis by (simp add: lms_isS)
    qed
    show ?thesis
    proof (cases "0 \<le> i1")
      case False
      with sl have i1: "i1 = - 1" by simp
      from "1.prems"(1) True le False have "lms_scan T B i1 j m c01 b s = Some (s', j', m', b')"
        by (subst (asm) lms_scan.simps) simp
      with False have "m' = m"
        by (subst (asm) lms_scan.simps) simp
      moreover have "lms_upto T i = lms_upto T (- 1)"
      proof (rule lms_upto_none)
        show "\<forall>p. - 1 < p \<and> p \<le> i \<longrightarrow> \<not> lms False T (nat p)"
        proof (intro allI impI)
          fix p assume p: "- 1 < p \<and> p \<le> i"
          show "\<not> lms False T (nat p)"
          proof (cases "p = 0")
            case True
            then show ?thesis by (simp add: lms_def)
          next
            case False
            with p i1 no_upper[of p] show ?thesis by simp
          qed
        qed
      qed (use True in simp_all)
      ultimately show ?thesis by (simp add: lms_upto_def)
    next
      case ge: True
      from "1.prems"(1) True le ge obtain s1 v s2 i2 c02 c12 where
        st: "store_at b j s = Some s1" "load s1 B c11 = Some v" "store s1 B c11 (v - 1) = Some s2"
        and sk: "skip_ge T i1 c01 = Some (i2, c02, c12)"
        and rec: "lms_scan T B i2 i1 (m + 1) c02 (Some (v - 1)) s2 = Some (s', j', m', b')"
        by (subst (asm) lms_scan.simps) (auto split: bind_splits)
      from sl ge "1.prems"(3) have i1n: "i1 < int (length T)" and L1: "\<not> isS T i1" and c01: "c01 = T ! nat i1"
        by simp_all
      from skip_ge_spec[OF sk ge i1n c01 L1]
      have sg: "- 1 \<le> i2" "i2 < i1" "\<forall>x. i2 < x \<and> x \<le> i1 \<longrightarrow> \<not> isS T x"
        "0 \<le> i2 \<longrightarrow> isS T i2 \<and> c02 = T ! nat i2 \<and> c12 = T ! nat (i2 + 1)"
        by simp_all
      have ih: "m' = (m + 1) + int (lms_upto T i2)"
        using "1.IH"(1)[OF True le refl refl ge st(1) st(2) st(3) refl refl refl sk refl refl rec sg(1)] sg i1n
        by simp
      have a: "lms_upto T i = lms_upto T (i1 + 1)"
        by (rule lms_upto_none) (use sl ge no_upper in auto)
      have "lms False T (nat (i1 + 1))"
        using lms_isS[of "i1 + 1" T] ge sl(2,3) L1 "1.prems"(3) by simp
      then have b: "lms_upto T (i1 + 1) = lms_upto T i1 + 1"
        using lms_upto_Suc[of "i1 + 1" T] ge by simp
      have c: "lms_upto T i1 = lms_upto T i2"
      proof (rule lms_upto_none)
        show "\<forall>p. i2 < p \<and> p \<le> i1 \<longrightarrow> \<not> lms False T (nat p)"
        proof (intro allI impI)
          fix p assume p: "i2 < p \<and> p \<le> i1"
          then have "\<not> isS T p" using sg(3) by simp
          then show "\<not> lms False T (nat p)" by (simp add: lms_def isS_def)
        qed
      qed (use sg in simp_all)
      from ih a b c show ?thesis by simp
    qed
  qed
qed

lemma scan_counts_lms:
  assumes "stage1_scan T C B n k s = Some (s', j, m, b)" and "int (length T) = n"
  shows "m = int (lms_count False T)"
proof -
  from assms(1) obtain s1 c0 i c0' c1' where
    c0: "chr T (n - 1) = Some c0"
    and sk: "skip_ge T (n - 1) c0 = Some (i, c0', c1')"
    and sc: "lms_scan T B i n 0 c0' None s1 = Some (s', j, m, b)"
    by (auto simp: stage1_scan_def split: bind_splits)
  from c0 have n: "0 \<le> n - 1" "n - 1 < int (length T)" "c0 = T ! nat (n - 1)"
    by (simp_all add: chr_Some)
  have L: "\<not> isS T (n - 1)" using isS_last[of "n - 1" T] assms(2) by simp
  from skip_ge_spec[OF sk n L]
  have sg: "- 1 \<le> i" "i < n - 1" "\<forall>x. i < x \<and> x \<le> n - 1 \<longrightarrow> \<not> isS T x"
    "0 \<le> i \<longrightarrow> isS T i \<and> c0' = T ! nat i \<and> c1' = T ! nat (i + 1)"
    by simp_all
  have "m = 0 + int (lms_upto T i)"
    by (rule lms_scan_exact[OF sc]) (use sg n in auto)
  moreover have "lms_upto T (n - 1) = lms_upto T i"
  proof (rule lms_upto_none)
    show "\<forall>p. i < p \<and> p \<le> n - 1 \<longrightarrow> \<not> lms False T (nat p)"
    proof (intro allI impI)
      fix p assume p: "i < p \<and> p \<le> n - 1"
      then have "\<not> isS T p" using sg(3) by simp
      then show "\<not> lms False T (nat p)" by (simp add: lms_def isS_def)
    qed
  qed (use sg in simp_all)
  moreover have "lms_count False T = lms_upto T (n - 1)"
  proof -
    have "nat n = length T" using assms(2) by auto
    then show ?thesis by (simp add: lms_count_def lms_upto_def)
  qed
  ultimately show ?thesis by simp
qed

lemma discovered_two: "discovered [1, 0] 0 2 2 (failing_mem [0, 0] 2) = Some 0"
  by code_simp

lemma discovered_banana: "discovered [1, 0, 2, 0, 2, 0] 0 6 3 (failing_mem [0, 0, 0, 0, 0, 0] 3) = Some 2"
  by code_simp

lemma lms_count_two: "lms_count True [1, 0] = 1"
  by code_simp

text \<open>
  Claim C5 (as stated: \<open>m\<close> is the number of LMS positions under the classification of the
  specification, which makes position \<open>n - 1\<close> S-type) fails.  In the text \<open>[1, 0]\<close> position 1
  is then S-type after the L-type position 0, hence an LMS position, but the scan of
  \<^verbatim>\<open>computeSA\<close> ends with \<open>m = 0\<close>: its first loop skips the last position together with the
  L-type run before it.
\<close>

theorem lms_count_counterexample:
  "discovered [1, 0] 0 2 2 (failing_mem [0, 0] 2) = Some 0 \<and> lms_count True [1, 0] = 1"
  using discovered_two lms_count_two by simp

text \<open>
  Claim C5, amended.  Whenever stage 1 completes on a text of length \<open>n\<close>, its counter \<open>m\<close>
  is the number of LMS positions under the classification that makes position \<open>n - 1\<close>
  L-type (as if a sentinel below every symbol followed the text) and is otherwise the one of
  the specification: \<open>i < n - 1\<close> is S-type iff \<open>T[i] < T[i+1]\<close>, or \<open>T[i] = T[i+1]\<close> and
  \<open>i + 1\<close> is S-type; \<open>i > 0\<close> is LMS iff it is S-type and \<open>i - 1\<close> is L-type.
\<close>

theorem discovered_lms_count:
  assumes "discovered T fs n k s = Some m" and "int (length T) = n"
  shows "m = int (lms_count False T)"
proof -
  from assms(1) obtain C B f0 s0 s1 j b where
    "stage1_scan T C B n k s0 = Some (s1, j, m, b)"
    by (auto simp: discovered_def stage1_def Let_def split: bind_splits flow.splits)
  then show ?thesis using assms(2) by (rule scan_counts_lms)
qed

theorem discovered_lms_count_witness:
  "discovered [1, 0, 2, 0, 2, 0] 0 6 3 (failing_mem [0, 0, 0, 0, 0, 0] 3) = Some 2
   \<and> int (length [1, 0, 2, 0, 2, 0 :: int]) = 6
   \<and> (2::int) = int (lms_count False [1, 0, 2, 0, 2, 0])"
  using discovered_lms_count[OF discovered_banana] discovered_banana by simp

section \<open>The provisional placement of the LMS positions\<close>

subsection \<open>Slots\<close>

section \<open>Slots of the LMS positions\<close>

lemma lms_from_split:
  assumes "p \<le> p'" "p' \<le> length T"
  shows "lms_from T p c = int (length (filter (\<lambda>q. lms False T q \<and> T ! q = c) [p..<p'])) + lms_from T p' c"
proof -
  have "[p..<length T] = [p..<p'] @ [p'..<length T]"
    using assms by (metis le_Suc_ex upt_add_eq_append)
  then show ?thesis by (simp add: lms_from_def)
qed

lemma lms_from_none:
  assumes "p \<le> p'" "\<forall>q. p \<le> q \<and> q < p' \<longrightarrow> \<not> lms False T q"
  shows "lms_from T p c = lms_from T p' c"
proof (cases "p' \<le> length T")
  case True
  have "filter (\<lambda>q. lms False T q \<and> T ! q = c) [p..<p'] = []"
    using assms(2) by (auto simp: filter_empty_conv)
  with lms_from_split[OF assms(1) True, of c] show ?thesis by simp
next
  case False
  have a: "filter (\<lambda>q. lms False T q \<and> T ! q = c) [p..<length T] = []"
    using assms(2) False by (auto simp: filter_empty_conv)
  have "lms_from T p' c = 0" using False by (simp add: lms_from_def)
  moreover have "lms_from T p c = 0" using a by (simp add: lms_from_def)
  ultimately show ?thesis by simp
qed

lemma lms_from_here:
  assumes "lms False T p"
  shows "lms_from T p c = (if T ! p = c then 1 else 0) + lms_from T (Suc p) c"
proof -
  have "p < length T" using assms by (simp add: lms_def)
  then have "[p..<length T] = p # [Suc p..<length T]" by (simp add: upt_conv_Cons)
  then show ?thesis using assms by (simp add: lms_from_def)
qed

lemma occ_index: "occ T c = int (length (filter (\<lambda>q. T ! q = c) [0..<length T]))"
proof -
  have "filter (\<lambda>x. x = c) (map ((!) T) [0..<length T]) = map ((!) T) (filter (\<lambda>q. T ! q = c) [0..<length T])"
    by (simp add: filter_map comp_def)
  then have "length (filter (\<lambda>x. x = c) T) = length (filter (\<lambda>q. T ! q = c) [0..<length T])"
    by (metis length_map map_nth)
  then show ?thesis by (simp add: occ_def)
qed

lemma length_filter_conj_le: "length (filter (\<lambda>x. P x \<and> Q x) xs) \<le> length (filter Q xs)"
  by (induction xs) auto

lemma lms_from_le_occ: "lms_from T p c \<le> occ T c"
proof -
  have "length (filter (\<lambda>q. lms False T q \<and> T ! q = c) [p..<length T])
      \<le> length (filter (\<lambda>q. T ! q = c) [p..<length T])"
    by (rule length_filter_conj_le)
  also have "\<dots> \<le> length (filter (\<lambda>q. T ! q = c) [0..<length T])"
  proof (cases "p \<le> length T")
    case True
    then have "[0..<length T] = [0..<p] @ [p..<length T]"
      by (metis le_Suc_ex upt_add_eq_append zero_le)
    then show ?thesis by simp
  next
    case False
    then show ?thesis by simp
  qed
  finally show ?thesis by (simp add: lms_from_def occ_index)
qed

lemma lms_from_mono: "p \<le> p' \<Longrightarrow> lms_from T p' c \<le> lms_from T p c"
proof (cases "p' \<le> length T")
  case True
  assume "p \<le> p'"
  from lms_from_split[OF this True, of c] show ?thesis by simp
next
  case False
  then show ?thesis by (simp add: lms_from_def)
qed

lemma bucket_bounds: "0 \<le> bucket_start T c" "bucket_end T c \<le> int (length T)"
  by (simp_all add: bucket_start_def bucket_end_def)

lemma bucket_mono: "c < c' \<Longrightarrow> bucket_end T c \<le> bucket_start T c'"
proof -
  assume "c < c'"
  then have "length (filter (\<lambda>x. x \<le> c) T) \<le> length (filter (\<lambda>x. x < c') T)"
    by (induction T) auto
  then show ?thesis by (simp add: bucket_start_def bucket_end_def)
qed

lemma lms_slot_range:
  assumes "lms False T q"
  shows "bucket_start T (T ! q) \<le> lms_slot T q" "lms_slot T q < bucket_end T (T ! q)"
proof -
  have "1 \<le> lms_from T q (T ! q)"
    using lms_from_here[OF assms, of "T ! q"] by (simp add: lms_from_def)
  then show "lms_slot T q < bucket_end T (T ! q)" by (simp add: lms_slot_def)
  show "bucket_start T (T ! q) \<le> lms_slot T q"
    using lms_from_le_occ[of T q "T ! q"] by (simp add: lms_slot_def bucket_end_eq)
qed

lemma lms_slot_bounds:
  assumes "lms False T q"
  shows "0 \<le> lms_slot T q" "lms_slot T q < int (length T)"
  using lms_slot_range[OF assms] bucket_bounds[of T "T ! q"] by simp_all

lemma lms_slot_less:
  assumes "lms False T q" "lms False T q'" "q < q'" "T ! q = T ! q'"
  shows "lms_slot T q < lms_slot T q'"
proof -
  have "lms_from T q (T ! q) = 1 + lms_from T (Suc q) (T ! q)"
    using lms_from_here[OF assms(1), of "T ! q"] by simp
  moreover have "lms_from T q' (T ! q) \<le> lms_from T (Suc q) (T ! q)"
    using assms(3) by (intro lms_from_mono) simp
  ultimately show ?thesis using assms(4) by (simp add: lms_slot_def)
qed

lemma lms_slot_inj:
  assumes "lms False T q" "lms False T q'" "lms_slot T q = lms_slot T q'"
  shows "q = q'"
proof (rule ccontr)
  assume ne: "q \<noteq> q'"
  show False
  proof (cases "T ! q = T ! q'")
    case True
    with ne assms lms_slot_less[of T q q'] lms_slot_less[of T q' q] show False
      by (cases "q < q'") auto
  next
    case False
    then consider "T ! q < T ! q'" | "T ! q' < T ! q" by linarith
    then show False
    proof cases
      case 1
      from bucket_mono[OF 1, of T] lms_slot_range[OF assms(1)] lms_slot_range[OF assms(2)] assms(3)
      show False by simp
    next
      case 2
      from bucket_mono[OF 2, of T] lms_slot_range[OF assms(1)] lms_slot_range[OF assms(2)] assms(3)
      show False by simp
    qed
  qed
qed

subsection \<open>The invariant of the discovery scan\<close>

lemma scan_inv_shift:
  assumes inv: "scan_inv T n k B i j b s"
    and le: "i' \<le> i" "- 1 \<le> i'"
    and no: "\<forall>q. i' + 1 < int q \<and> int q \<le> i + 1 \<longrightarrow> \<not> lms False T q"
  shows "scan_inv T n k B i' j b s"
proof -
  have eq: "lms_from T (nat (i' + 2)) c = lms_from T (nat (i + 2)) c" for c
  proof (rule lms_from_none)
    show "nat (i' + 2) \<le> nat (i + 2)" using le by simp
    show "\<forall>q. nat (i' + 2) \<le> q \<and> q < nat (i + 2) \<longrightarrow> \<not> lms False T q"
    proof (intro allI impI)
      fix q assume q: "nat (i' + 2) \<le> q \<and> q < nat (i + 2)"
      with le have "i' + 1 < int q \<and> int q \<le> i + 1" by linarith
      with no show "\<not> lms False T q" by blast
    qed
  qed
  have b: "(case b of
         None \<Rightarrow> j = n \<and> (\<forall>q. lms False T q \<longrightarrow> int q \<le> i' + 1)
       | Some x \<Rightarrow> 0 \<le> j \<and> lms False T (nat (j + 1)) \<and> i' < j
           \<and> (\<forall>q. lms False T q \<and> i' + 1 < int q \<longrightarrow> j + 1 \<le> int q)
           \<and> x = lms_slot T (nat (j + 1)))"
  proof (cases b)
    case None
    with inv have "j = n" "\<forall>q. lms False T q \<longrightarrow> int q \<le> i + 1" by (simp_all add: scan_inv_def)
    moreover have "int q \<le> i' + 1" if "lms False T q" "int q \<le> i + 1" for q
      using no that by (cases "i' + 1 < int q") auto
    ultimately show ?thesis using None by auto
  next
    case (Some x)
    with inv have a: "0 \<le> j" "lms False T (nat (j + 1))" "i < j"
      "\<forall>q. lms False T q \<and> i + 1 < int q \<longrightarrow> j + 1 \<le> int q" "x = lms_slot T (nat (j + 1))"
      by (simp_all add: scan_inv_def)
    have "j + 1 \<le> int q" if "lms False T q" "i' + 1 < int q" for q
      using no that a(4) by (cases "i + 1 < int q") auto
    with a le Some show ?thesis by auto
  qed
  from inv b show ?thesis unfolding scan_inv_def eq by blast
qed

lemma scan_inv_discover:
  assumes inv: "scan_inv T n k B i j b s"
    and T: "int (length T) = n" "\<forall>x\<in>set T. 0 \<le> x \<and> x < k"
    and sep: "cells B k \<inter> cells (SAp 0) n = {}"
    and p: "0 \<le> i" "lms False T (nat (i + 1))"
    and st: "store_at b j s = Some s1" "load s1 B (T ! nat (i + 1)) = Some v"
      "store s1 B (T ! nat (i + 1)) (v - 1) = Some s2"
  shows "scan_inv T n k B (i - 1) i (Some (v - 1)) s2"
proof -
  define c1 where "c1 = T ! nat (i + 1)"
  have pn: "nat (i + 1) < length T" using p(2) by (simp add: lms_def)
  then have c1: "0 \<le> c1" "c1 < k" using T(2) by (auto simp: c1_def)
  have sepc: "cell B c \<noteq> cell (SAp 0) x" if "0 \<le> c" "c < k" "0 \<le> x" "x < n" for c x
  proof
    assume "cell B c = cell (SAp 0) x"
    moreover have "cell B c \<in> cells B k" using that by simp
    moreover have "cell (SAp 0) x \<in> cells (SAp 0) n" using that by simp
    ultimately show False using sep by auto
  qed
  have slotn: "0 \<le> lms_slot T q \<and> lms_slot T q < n" if "lms False T q" for q
    using lms_slot_bounds[OF that] T(1) by simp
  have a0: "load s B c = Some (bucket_end T c - lms_from T (nat (i + 2)) c)" if "0 \<le> c" "c < k" for c
    using inv that by (simp add: scan_inv_def)
  have d0: "load s (SAp 0) (lms_slot T q) = Some (int q - 1)" if "lms False T q" "j + 1 < int q" for q
    using inv that by (simp add: scan_inv_def)
  have e0: "load s (SAp 0) x = Some 0"
    if "0 \<le> x" "x < n" "\<forall>q. lms False T q \<and> j + 1 < int q \<longrightarrow> lms_slot T q \<noteq> x" for x
    using inv that by (simp add: scan_inv_def)
  text \<open>the pending store\<close>
  have s1B: "load s1 B c = load s B c" if "0 \<le> c" "c < k" for c
  proof (cases b)
    case None
    with st(1) show ?thesis by (simp add: store_at_def)
  next
    case (Some x)
    with inv have x: "x = lms_slot T (nat (j + 1))" "lms False T (nat (j + 1))"
      by (simp_all add: scan_inv_def)
    from Some st(1) have "store s (SAp 0) x j = Some s1" by (simp add: store_at_def)
    from load_store[OF this, of B c] sepc[OF that, of x] slotn[OF x(2)] x(1)
    show ?thesis by auto
  qed
  have v: "v = bucket_end T c1 - lms_from T (nat (i + 2)) c1"
    using st(2) s1B[OF c1] a0[OF c1] by (simp add: c1_def)
  have here: "lms_from T (nat (i + 1)) c = (if c1 = c then 1 else 0) + lms_from T (nat (i + 2)) c" for c
  proof -
    have "Suc (nat (i + 1)) = nat (i + 2)" using p(1) by simp
    with lms_from_here[OF p(2), of c] show ?thesis by (simp add: c1_def)
  qed
  have s2B: "load s2 B c = Some (bucket_end T c - lms_from T (nat (i + 1)) c)" if "0 \<le> c" "c < k" for c
    using load_store[OF st(3), of B c] s1B[OF that] a0[OF that] v here[of c]
    by (auto simp: c1_def)
  have s2SA: "load s2 (SAp 0) x = load s1 (SAp 0) x" if "0 \<le> x" "x < n" for x
    using load_store[OF st(3), of "SAp 0" x] sepc[OF c1 that] by (auto simp: c1_def)
  have A: "\<forall>c. 0 \<le> c \<and> c < k \<longrightarrow> load s2 B c = Some (bucket_end T c - lms_from T (nat (i - 1 + 2)) c)"
  proof -
    have "i - 1 + 2 = i + 1" by simp
    with s2B show ?thesis by metis
  qed
  have Bp: "0 \<le> i \<and> lms False T (nat (i + 1)) \<and> i - 1 < i
      \<and> (\<forall>q. lms False T q \<and> i - 1 + 1 < int q \<longrightarrow> i + 1 \<le> int q)
      \<and> v - 1 = lms_slot T (nat (i + 1))"
    using p v here[of c1] by (auto simp: lms_slot_def c1_def)
  have D: "load s2 (SAp 0) (lms_slot T q) = Some (int q - 1)" if q: "lms False T q" "i + 1 < int q" for q
  proof (cases b)
    case None
    with inv have "int q \<le> i + 1" using q(1) by (simp add: scan_inv_def)
    with q(2) show ?thesis by simp
  next
    case (Some x)
    with inv have x: "x = lms_slot T (nat (j + 1))" "lms False T (nat (j + 1))" "0 \<le> j"
      "\<forall>q. lms False T q \<and> i + 1 < int q \<longrightarrow> j + 1 \<le> int q"
      by (simp_all add: scan_inv_def)
    from Some st(1) have w: "store s (SAp 0) x j = Some s1" by (simp add: store_at_def)
    from x(4) q have ge: "j + 1 \<le> int q" by blast
    show ?thesis
    proof (cases "int q = j + 1")
      case True
      then have "nat (j + 1) = q" by simp
      with x(1) have "lms_slot T q = x" by simp
      with load_store[OF w, of "SAp 0" x] s2SA[of "lms_slot T q"] slotn[OF q(1)] True
      show ?thesis by simp
    next
      case False
      with ge have gt: "j + 1 < int q" by simp
      have "lms_slot T q \<noteq> x"
      proof
        assume "lms_slot T q = x"
        with x(1) lms_slot_inj[OF q(1) x(2)] have "q = nat (j + 1)" by simp
        with gt x(3) show False by simp
      qed
      with load_store[OF w, of "SAp 0" "lms_slot T q"] s2SA[of "lms_slot T q"] slotn[OF q(1)] d0[OF q(1) gt]
      show ?thesis by simp
    qed
  qed
  have E: "load s2 (SAp 0) x = Some 0"
    if x: "0 \<le> x" "x < n" "\<forall>q. lms False T q \<and> i + 1 < int q \<longrightarrow> lms_slot T q \<noteq> x" for x
  proof (cases b)
    case None
    with inv have "j = n" by (simp add: scan_inv_def)
    have "\<forall>q. lms False T q \<and> j + 1 < int q \<longrightarrow> lms_slot T q \<noteq> x"
    proof (intro allI impI)
      fix q assume "lms False T q \<and> j + 1 < int q"
      then have "q < length T" "j + 1 < int q" by (simp_all add: lms_def)
      with \<open>j = n\<close> T(1) show "lms_slot T q \<noteq> x" by simp
    qed
    from e0[OF x(1,2) this] None st(1) s2SA[OF x(1,2)] show ?thesis by (simp add: store_at_def)
  next
    case (Some y)
    with inv have y: "y = lms_slot T (nat (j + 1))" "lms False T (nat (j + 1))" "0 \<le> j" "i < j"
      "\<forall>q. lms False T q \<and> i + 1 < int q \<longrightarrow> j + 1 \<le> int q"
      by (simp_all add: scan_inv_def)
    from Some st(1) have w: "store s (SAp 0) y j = Some s1" by (simp add: store_at_def)
    have "\<forall>q. lms False T q \<and> j + 1 < int q \<longrightarrow> lms_slot T q \<noteq> x"
      using x(3) y(4) by auto
    from e0[OF x(1,2) this] have z: "load s (SAp 0) x = Some 0" .
    have "y \<noteq> x" using x(3)[rule_format, of "nat (j + 1)"] y by simp
    with load_store[OF w, of "SAp 0" x] z s2SA[OF x(1,2)] show ?thesis by simp
  qed
  show ?thesis
    unfolding scan_inv_def using A Bp D E by simp
qed

lemma lms_scan_layout:
  assumes "lms_scan T B i j m c0 b s = Some (s', j', m', b')"
    and "int (length T) = n" "\<forall>x\<in>set T. 0 \<le> x \<and> x < k"
    and "cells B k \<inter> cells (SAp 0) n = {}"
    and "- 1 \<le> i" "i < n"
    and "0 \<le> i \<longrightarrow> c0 = T ! nat i \<and> isS T i"
    and "i + 1 < n \<longrightarrow> \<not> isS T (i + 1)"
    and "scan_inv T n k B i j b s"
  shows "scan_inv T n k B (- 1) j' b' s'"
  using assms
proof (induction T B i j m c0 b s rule: lms_scan.induct)
  case (1 T B i j m c0 b s)
  note T = "1.prems"(2,3) and sep = "1.prems"(4) and inv = "1.prems"(9)
  show ?case
  proof (cases "0 \<le> i")
    case False
    with "1.prems" have "i = - 1" by simp
    moreover from "1.prems"(1) False have "s' = s" "j' = j" "b' = b"
      by (subst (asm) lms_scan.simps, simp)+
    ultimately show ?thesis using inv by simp
  next
    case True
    from "1.prems"(1) True obtain i1 c01 c11 where
      le: "skip_le T i c0 = Some (i1, c01, c11)"
      by (subst (asm) lms_scan.simps) (auto split: bind_splits)
    have iT: "i < int (length T)" using "1.prems"(6) T(1) by simp
    from skip_le_spec[OF le True iT] "1.prems"(7) True
    have sl: "- 1 \<le> i1" "i1 < i" "\<forall>x. i1 < x \<and> x \<le> i \<longrightarrow> isS T x"
      "0 \<le> i1 \<longrightarrow> \<not> isS T i1 \<and> c01 = T ! nat i1 \<and> c11 = T ! nat (i1 + 1)"
      by simp_all
    have no_upper: "\<not> lms False T q" if "i1 + 1 < int q" "int q \<le> i + 1" for q
    proof (cases "int q \<le> i")
      case True
      have "isS T (int q - 1)" using sl(3) that True by simp
      moreover have "0 < int q" "int q < int (length T)" using that sl(1) iT True by simp_all
      ultimately show ?thesis using lms_isS[of "int q" T] by simp
    next
      case False
      with that have q: "int q = i + 1" by simp
      show ?thesis
      proof (cases "i + 1 < n")
        case True
        with "1.prems"(8) q have "\<not> isS T (int q)" by simp
        then show ?thesis by (simp add: lms_def isS_def)
      next
        case False
        with q T(1) show ?thesis by (simp add: lms_def)
      qed
    qed
    have inv1: "scan_inv T n k B i1 j b s"
      by (rule scan_inv_shift[OF inv]) (use sl no_upper in auto)
    show ?thesis
    proof (cases "0 \<le> i1")
      case False
      with sl have i1: "i1 = - 1" by simp
      from "1.prems"(1) True le False have "lms_scan T B i1 j m c01 b s = Some (s', j', m', b')"
        by (subst (asm) lms_scan.simps) simp
      with False have "s' = s" "j' = j" "b' = b"
        by (subst (asm) lms_scan.simps, simp)+
      with inv1 i1 show ?thesis by simp
    next
      case ge: True
      from "1.prems"(1) True le ge obtain s1 v s2 i2 c02 c12 where
        st: "store_at b j s = Some s1" "load s1 B c11 = Some v" "store s1 B c11 (v - 1) = Some s2"
        and sk: "skip_ge T i1 c01 = Some (i2, c02, c12)"
        and rec: "lms_scan T B i2 i1 (m + 1) c02 (Some (v - 1)) s2 = Some (s', j', m', b')"
        by (subst (asm) lms_scan.simps) (auto split: bind_splits)
      from sl ge iT have i1n: "i1 < int (length T)" and L1: "\<not> isS T i1" and c01: "c01 = T ! nat i1"
        and c11: "c11 = T ! nat (i1 + 1)"
        by simp_all
      from skip_ge_spec[OF sk ge i1n c01 L1]
      have sg: "- 1 \<le> i2" "i2 < i1" "\<forall>x. i2 < x \<and> x \<le> i1 \<longrightarrow> \<not> isS T x"
        "0 \<le> i2 \<longrightarrow> isS T i2 \<and> c02 = T ! nat i2 \<and> c12 = T ! nat (i2 + 1)"
        by simp_all
      have p: "lms False T (nat (i1 + 1))"
        using lms_isS[of "i1 + 1" T] ge sl(2,3) L1 iT by simp
      have inv2: "scan_inv T n k B (i1 - 1) i1 (Some (v - 1)) s2"
        using scan_inv_discover[OF inv1 T sep ge p st(1)] st(2,3) c11 by simp
      have no_lower: "\<not> lms False T q" if "i2 + 1 < int q" "int q \<le> i1" for q
      proof -
        have "\<not> isS T (int q)" using sg(3) that by simp
        then show ?thesis by (simp add: lms_def isS_def)
      qed
      have inv3: "scan_inv T n k B i2 i1 (Some (v - 1)) s2"
        by (rule scan_inv_shift[OF inv2]) (use sg no_lower in auto)
      have L2: "i2 + 1 < n \<longrightarrow> \<not> isS T (i2 + 1)" using sg(2,3) by simp
      have i2n: "i2 < n" using sg(2) i1n T(1) by simp
      have h2: "0 \<le> i2 \<longrightarrow> c02 = T ! nat i2 \<and> isS T i2" using sg(4) by simp
      show ?thesis
        using "1.IH"(1)[OF True le refl refl ge st(1) st(2) st(3) refl refl refl sk refl refl rec
            T sep sg(1) i2n h2 L2 inv3] .
    qed
  qed
qed

lemma lms_from_length [simp]: "lms_from T (length T) c = 0"
  by (simp add: lms_from_def)

lemma zero_loop_spec:
  assumes "iter (up n) (\<lambda>i s. store s (SAp 0) i 0) s = Some s'"
  shows "(\<forall>x. 0 \<le> x \<and> x < n \<longrightarrow> load s' (SAp 0) x = Some 0) \<and> frame s s' (cells (SAp 0) n)"
proof -
  define I where "I i t \<longleftrightarrow> (\<forall>x. 0 \<le> x \<and> x < i \<longrightarrow> load t (SAp 0) x = Some 0)
      \<and> frame s t (cells (SAp 0) n)" for i t
  have "I (max 0 n) s'"
  proof (rule iter_up_rule[OF assms, of I])
    show "I 0 s" by (auto simp: I_def)
  next
    fix i x y assume i: "0 \<le> i" "i < n" and inv: "I i x" and st: "store x (SAp 0) i 0 = Some y"
    have "frame x y (cells (SAp 0) n)"
      by (rule frame_store_in[OF st]) (use i in simp)
    with inv have f: "frame s y (cells (SAp 0) n)"
      using frame_trans[of s x "cells (SAp 0) n" y "cells (SAp 0) n"] by (simp add: I_def)
    have "load y (SAp 0) z = Some 0" if "0 \<le> z" "z < i + 1" for z
      using load_store[OF st, of "SAp 0" z] inv that by (auto simp: I_def)
    with f show "I (i + 1) y" by (simp add: I_def)
  qed
  then show ?thesis by (auto simp: I_def max_def)
qed

lemma stage1_scan_layout:
  assumes run: "stage1_scan T C B n k s = Some (s', j, m, b)"
    and T: "int (length T) = n" "\<forall>x\<in>set T. 0 \<le> x \<and> x < k"
    and sep: "cells B k \<inter> cells (SAp 0) n = {}"
    and al: "C = B \<or> cells C k \<inter> cells B k = {}"
  shows "scan_inv T n k B (- 1) j b s'"
proof -
  from run obtain s1 s2 s3 c0 i c0' c1' where
    gc: "getCounts T C n k s = Some s1"
    and gb: "getBuckets C B k True s1 = Some s2"
    and zl: "iter (up n) (\<lambda>i s. store s (SAp 0) i 0) s2 = Some s3"
    and c0: "chr T (n - 1) = Some c0"
    and sk: "skip_ge T (n - 1) c0 = Some (i, c0', c1')"
    and sc: "lms_scan T B i n 0 c0' None s3 = Some (s', j, m, b)"
    by (auto simp: stage1_scan_def split: bind_splits)
  from getCounts_spec[OF gc T] have cnt: "\<forall>c. 0 \<le> c \<and> c < k \<longrightarrow> load s1 C c = Some (occ T c)"
    by simp
  have "\<forall>x\<in>set T. 0 \<le> x" using T(2) by simp
  from getBuckets_spec[OF gb cnt al this]
  have B2: "\<forall>c. 0 \<le> c \<and> c < k \<longrightarrow> load s2 B c = Some (bucket_end T c)" by simp
  from zero_loop_spec[OF zl]
  have z3: "\<forall>x. 0 \<le> x \<and> x < n \<longrightarrow> load s3 (SAp 0) x = Some 0"
    and f3: "frame s2 s3 (cells (SAp 0) n)" by simp_all
  have B3: "load s3 B c = Some (bucket_end T c)" if "0 \<le> c" "c < k" for c
  proof -
    have "cell B c \<in> cells B k" using that by simp
    with sep have "cell B c \<notin> cells (SAp 0) n" by blast
    with f3 have "load s3 B c = load s2 B c" by (simp add: frame_def)
    with B2 that show ?thesis by simp
  qed
  from c0 have n: "0 \<le> n - 1" "n - 1 < int (length T)" "c0 = T ! nat (n - 1)"
    by (simp_all add: chr_Some)
  have L: "\<not> isS T (n - 1)" using isS_last[of "n - 1" T] T(1) by simp
  from skip_ge_spec[OF sk n L]
  have sg: "- 1 \<le> i" "i < n - 1" "\<forall>x. i < x \<and> x \<le> n - 1 \<longrightarrow> \<not> isS T x"
    "0 \<le> i \<longrightarrow> isS T i \<and> c0' = T ! nat i \<and> c1' = T ! nat (i + 1)"
    by simp_all
  have no: "\<not> lms False T q" if "i < int q" for q
  proof (cases "q < length T")
    case True
    with that sg(3) T(1) have "\<not> isS T (int q)" by simp
    then show ?thesis by (simp add: lms_def isS_def)
  next
    case False
    then show ?thesis by (simp add: lms_def)
  qed
  have lf: "lms_from T (nat (i + 2)) c = 0" for c
  proof -
    have "lms_from T (nat (i + 2)) c = lms_from T (length T) c"
    proof (rule lms_from_none)
      show "nat (i + 2) \<le> length T" using sg(1,2) T(1) by linarith
      show "\<forall>q. nat (i + 2) \<le> q \<and> q < length T \<longrightarrow> \<not> lms False T q"
      proof (intro allI impI)
        fix q assume "nat (i + 2) \<le> q \<and> q < length T"
        with sg(1) have "i < int q" by linarith
        then show "\<not> lms False T q" by (rule no)
      qed
    qed
    then show ?thesis by simp
  qed
  have none: "\<forall>q. lms False T q \<longrightarrow> int q \<le> i + 1"
  proof (intro allI impI)
    fix q assume "lms False T q"
    with no[of q] show "int q \<le> i + 1" by (cases "i < int q") auto
  qed
  have far: "\<not> (lms False T q \<and> n + 1 < int q)" for q
    using T(1) by (auto simp: lms_def)
  have inv0: "scan_inv T n k B i n None s3"
    unfolding scan_inv_def using B3 lf none far z3 by auto
  have h: "0 \<le> i \<longrightarrow> c0' = T ! nat i \<and> isS T i" using sg(4) by simp
  have l: "i + 1 < n \<longrightarrow> \<not> isS T (i + 1)" using sg(1,3) by simp
  have "i < n" using sg(2) by simp
  from lms_scan_layout[OF sc T sep sg(1) this h l inv0] show ?thesis .
qed

lemma workspace_separate:
  assumes "workspace fs n k s = Some (Go (C, B, f0, s1))" and "0 \<le> fs" "0 < n" "1 \<le> k"
  shows "cells B k \<inter> cells (SAp 0) n = {}" "C = B \<or> cells C k \<inter> cells B k = {}"
  using workspace_cases[OF assms(1)] assms(2-)
  by (auto simp: cells_def)

lemma fold_place_nth:
  assumes "\<forall>p\<in>set ps. lms False T p" "distinct ps" "x < length xs"
  shows "fold (\<lambda>p xs. xs[nat (lms_slot T p) := int p - 1]) ps xs ! x
     = (case find (\<lambda>p. lms_slot T p = int x) ps of None \<Rightarrow> xs ! x | Some p \<Rightarrow> int p - 1)"
  using assms
proof (induction ps arbitrary: xs)
  case Nil
  then show ?case by simp
next
  case (Cons p ps)
  have ih: "fold (\<lambda>p xs. xs[nat (lms_slot T p) := int p - 1]) ps (xs[nat (lms_slot T p) := int p - 1]) ! x
     = (case find (\<lambda>p. lms_slot T p = int x) ps of None \<Rightarrow> xs[nat (lms_slot T p) := int p - 1] ! x | Some p \<Rightarrow> int p - 1)"
    using Cons.IH[of "xs[nat (lms_slot T p) := int p - 1]"] Cons.prems by simp
  have p: "lms False T p" using Cons.prems by simp
  show ?case
  proof (cases "lms_slot T p = int x")
    case True
    have "find (\<lambda>q. lms_slot T q = int x) ps = None"
    proof (rule ccontr)
      assume "find (\<lambda>q. lms_slot T q = int x) ps \<noteq> None"
      then obtain q where q: "q \<in> set ps" "lms_slot T q = int x"
        by (auto simp: find_None_iff)
      with Cons.prems(1) have "lms False T q" by simp
      from lms_slot_inj[OF p this] True q(2) have "p = q" by simp
      with q(1) Cons.prems(2) show False by simp
    qed
    with ih True Cons.prems(3) show ?thesis by simp
  next
    case False
    have "0 \<le> lms_slot T p" using lms_slot_bounds[OF p] by simp
    with False have "nat (lms_slot T p) \<noteq> x" by auto
    with ih False show ?thesis by (simp split: option.splits)
  qed
qed

lemma placement_nth:
  assumes "\<forall>p\<in>set ps. lms False T p" "distinct ps" "x < length T"
  shows "placement T ps ! x
     = (case find (\<lambda>p. lms_slot T p = int x) ps of None \<Rightarrow> 0 | Some p \<Rightarrow> int p - 1)"
  using fold_place_nth[OF assms(1,2), of x "replicate (length T) 0"] assms(3)
  by (simp add: placement_def split: option.splits)

lemma length_fold_place [simp]:
  "length (fold (\<lambda>p xs. xs[nat (lms_slot T p) := int p - 1]) ps xs) = length xs"
  by (induction ps arbitrary: xs) simp_all

lemma length_placement [simp]: "length (placement T ps) = length T"
  by (simp add: placement_def)

subsection \<open>The state after the scan\<close>

lemma scan_example:
  "scanned [2, 1, 0, 1, 0, 1] 0 6 3 (failing_mem (replicate 6 7) 5) = Some ([0, 3, 0, 0, 0, 0], 1, 2, Some 0)"
  by code_simp

lemma lms_example:
  "filter (lms True [2, 1, 0, 1, 0, 1]) [0..<6] = [2, 4]
   \<and> filter (lms False [2, 1, 0, 1, 0, 1]) [0..<6] = [2, 4]
   \<and> filter (\<lambda>p. lms False [2, 1, 0, 1, 0, 1] p \<and> int p \<noteq> 1 + 1) [0..<length [2, 1, 0, 1, 0, 1 :: int]] = [4]
   \<and> map (lms_slot [2, 1, 0, 1, 0, 1]) [2, 4] = [0, 1]
   \<and> placement [2, 1, 0, 1, 0, 1] [2, 4] = [1, 3, 0, 0, 0, 0]
   \<and> placement [2, 1, 0, 1, 0, 1] [4] = [0, 3, 0, 0, 0, 0]"
  by code_simp

text \<open>
  Claim C6 (as stated: every discovered LMS position has been written to its slot when the
  scan ends, and the other slots are zero) fails.  The scan writes the predecessor \<open>j\<close> of a
  discovered position through \<^verbatim>\<open>*b = j\<close> only when it discovers the next one, so the position
  discovered last, the leftmost, is still pending in the locals \<open>j\<close> and \<open>b\<close> when the scan ends.
  In the text \<open>[2, 1, 0, 1, 0, 1]\<close> the LMS positions are 2 and 4, the scan counts \<open>m = 2\<close> and
  leaves \<open>j = 1\<close> pending: slot 0, where the described placement has 1, holds zero.
\<close>

theorem provisional_placement_counterexample:
  "scanned [2, 1, 0, 1, 0, 1] 0 6 3 (failing_mem (replicate 6 7) 5) = Some ([0, 3, 0, 0, 0, 0], 1, 2, Some 0)
   \<and> filter (lms False [2, 1, 0, 1, 0, 1]) [0..<6] = [2, 4]
   \<and> placement [2, 1, 0, 1, 0, 1] [2, 4] = [1, 3, 0, 0, 0, 0]
   \<and> [0, 3, 0, 0, 0, 0] \<noteq> placement [2, 1, 0, 1, 0, 1] [2, 4]"
  using scan_example lms_example by simp

text \<open>
  Claim C6, amended.  Whenever the discovery scan of stage 1 completes on a text \<open>T\<close> of length
  \<open>n\<close> over \<open>[0, k)\<close>, \<^verbatim>\<open>SA[0 .. n)\<close> holds \<open>p - 1\<close> in the slot of every LMS position \<open>p\<close> but the
  leftmost, and zero in every other slot.  The slot of \<open>p\<close> is the value of \<^verbatim>\<open>--B[T[p]]\<close> at the
  discovery of \<open>p\<close>, the end of the bucket of \<open>T[p]\<close> less the number of LMS positions from \<open>p\<close>
  on with that symbol; it lies in the bucket of \<open>T[p]\<close>.  The leftmost LMS position is \<open>j + 1\<close>
  for the local \<open>j\<close>, and \<open>b\<close> points to its slot; when there is no LMS position, \<open>b\<close> still
  points to the local \<open>t\<close>.
\<close>

theorem provisional_placement:
  assumes run: "scanned T fs n k s = Some (SA', j, m, b)"
    and len: "int (length T) = n" and rng: "\<forall>x\<in>set T. 0 \<le> x \<and> x < k"
  shows "SA' = placement T (filter (\<lambda>p. lms False T p \<and> int p \<noteq> j + 1) [0..<length T])
     \<and> (\<forall>p. lms False T p \<longrightarrow>
           bucket_start T (T ! p) \<le> lms_slot T p \<and> lms_slot T p < bucket_end T (T ! p))
     \<and> (case b of
          None \<Rightarrow> \<forall>p. \<not> lms False T p
        | Some x \<Rightarrow> lms False T (nat (j + 1)) \<and> (\<forall>p. lms False T p \<longrightarrow> j + 1 \<le> int p)
            \<and> x = lms_slot T (nat (j + 1)))"
proof -
  from run obtain C B f0 s0 s1 where
    pre: "0 \<le> fs" "0 < n" "1 \<le> k"
    and ws: "workspace fs n k s = Some (Go (C, B, f0, s0))"
    and sc: "stage1_scan T C B n k s0 = Some (s1, j, m, b)"
    and SA': "SA' = take (nat n) (sa s1)"
    by (auto simp: scanned_def assert_def split: bind_splits flow.splits if_splits)
  from workspace_separate[OF ws pre]
  have sep: "cells B k \<inter> cells (SAp 0) n = {}" and al: "C = B \<or> cells C k \<inter> cells B k = {}"
    by simp_all
  from stage1_scan_layout[OF sc len rng sep al] have inv: "scan_inv T n k B (- 1) j b s1" .
  have pos: "0 < int q" if "lms False T q" for q using that by (simp add: lms_def)
  have P3: "case b of
          None \<Rightarrow> \<forall>p. \<not> lms False T p
        | Some x \<Rightarrow> lms False T (nat (j + 1)) \<and> (\<forall>p. lms False T p \<longrightarrow> j + 1 \<le> int p)
            \<and> x = lms_slot T (nat (j + 1))"
  proof (cases b)
    case None
    with inv have "\<forall>q. lms False T q \<longrightarrow> int q \<le> 0" by (simp add: scan_inv_def)
    with pos have "\<forall>p. \<not> lms False T p" by fastforce
    with None show ?thesis by simp
  next
    case (Some x)
    with inv have a: "lms False T (nat (j + 1))" "x = lms_slot T (nat (j + 1))"
      "\<forall>q. lms False T q \<and> 0 < int q \<longrightarrow> j + 1 \<le> int q"
      by (simp_all add: scan_inv_def)
    with pos have "\<forall>p. lms False T p \<longrightarrow> j + 1 \<le> int p" by blast
    with a Some show ?thesis by simp
  qed
  have above: "j + 1 < int q" if "lms False T q" "int q \<noteq> j + 1" for q
  proof (cases b)
    case None
    with P3 that show ?thesis by simp
  next
    case (Some x)
    with P3 that(1) have "j + 1 \<le> int q" by simp
    with that(2) show ?thesis by simp
  qed
  define ps where "ps = filter (\<lambda>p. lms False T p \<and> int p \<noteq> j + 1) [0..<length T]"
  have ps: "\<forall>p\<in>set ps. lms False T p" "distinct ps" by (simp_all add: ps_def)
  have mem: "q \<in> set ps" if "lms False T q" "j + 1 < int q" for q
    using that by (simp add: ps_def lms_def)
  have cellv: "load s1 (SAp 0) (int x) = Some (placement T ps ! x)" if x: "x < length T" for x
  proof (cases "find (\<lambda>p. lms_slot T p = int x) ps")
    case None
    then have "\<forall>q. lms False T q \<and> j + 1 < int q \<longrightarrow> lms_slot T q \<noteq> int x"
      using mem by (auto simp: find_None_iff)
    with inv x len have "load s1 (SAp 0) (int x) = Some 0" by (simp add: scan_inv_def)
    with placement_nth[OF ps x] None show ?thesis by simp
  next
    case (Some p)
    then have p: "p \<in> set ps" "lms_slot T p = int x" by (auto simp: find_Some_iff)
    then have l: "lms False T p" "int p \<noteq> j + 1" by (simp_all add: ps_def)
    from above[OF l] l(1) inv have "load s1 (SAp 0) (lms_slot T p) = Some (int p - 1)"
      by (simp add: scan_inv_def)
    with placement_nth[OF ps x] Some p(2) show ?thesis by simp
  qed
  have lenT: "0 < length T" using len pre(2) by auto
  from cellv[of "length T - 1"] lenT have "length T \<le> length (sa s1)"
    by (auto simp: load_def rd_def split: if_splits)
  with SA' len have l1: "length SA' = length T" by auto
  have "SA' = placement T ps"
  proof (rule nth_equalityI)
    show "length SA' = length (placement T ps)" using l1 by simp
  next
    fix x assume "x < length SA'"
    with l1 have x: "x < length T" by simp
    from cellv[OF x] have "sa s1 ! x = placement T ps ! x"
      by (auto simp: load_def rd_def split: if_splits)
    with x SA' len show "SA' ! x = placement T ps ! x" by auto
  qed
  with P3 lms_slot_range show ?thesis unfolding ps_def by blast
qed

theorem provisional_placement_witness:
  "scanned [2, 1, 0, 1, 0, 1] 0 6 3 (failing_mem (replicate 6 7) 5) = Some ([0, 3, 0, 0, 0, 0], 1, 2, Some 0)
   \<and> list_all (\<lambda>x. 0 \<le> x \<and> x < 3) [2, 1, 0, 1, 0, 1 :: int]
   \<and> [0, 3, 0, 0, 0, 0] = placement [2, 1, 0, 1, 0, 1] [4]
   \<and> lms False [2, 1, 0, 1, 0, 1] (nat (1 + 1))
   \<and> (0::int) = lms_slot [2, 1, 0, 1, 0, 1] (nat (1 + 1))"
proof -
  have a: "int (length [2, 1, 0, 1, 0, 1 :: int]) = 6" by simp
  have b: "\<forall>x\<in>set [2, 1, 0, 1, 0, 1 :: int]. 0 \<le> x \<and> x < 3" by simp
  note r = provisional_placement[OF scan_example a b, unfolded option.case]
  note f = lms_example[THEN conjunct2, THEN conjunct2, THEN conjunct1]
  show ?thesis
  proof (intro conjI)
    show "scanned [2, 1, 0, 1, 0, 1] 0 6 3 (failing_mem (replicate 6 7) 5) = Some ([0, 3, 0, 0, 0, 0], 1, 2, Some 0)"
      by (rule scan_example)
    show "list_all (\<lambda>x. 0 \<le> x \<and> x < 3) [2, 1, 0, 1, 0, 1 :: int]" by simp
    show "[0, 3, 0, 0, 0, 0] = placement [2, 1, 0, 1, 0, 1] [4]"
      using r[THEN conjunct1] unfolding f .
    show "lms False [2, 1, 0, 1, 0, 1] (nat (1 + 1))"
      by (rule r[THEN conjunct2, THEN conjunct2, THEN conjunct1])
    show "(0::int) = lms_slot [2, 1, 0, 1, 0, 1] (nat (1 + 1))"
      by (rule r[THEN conjunct2, THEN conjunct2, THEN conjunct2, THEN conjunct2])
  qed
qed

end
